theory Spec2Isabelle
  imports Complex_Main "HOL-Library.Word"
begin

unbundle bit_operations_syntax

section \<open>Data model\<close>

text \<open>
  The program works on NumPy arrays. A two-dimensional array is modelled as the list of
  its rows; an image is a matrix of pixels with three 8-bit channels. The DCT
  coefficients are floating-point numbers in the program; the model takes the exact
  rational value that each finite float denotes. The quantized coefficients are
  \<open>np.int32\<close> values, modelled as 32-bit words read in two's complement.
\<close>

type_synonym byte = "8 word"
type_synonym 'a matrix = "'a list list"
type_synonym pixel = "byte \<times> byte \<times> byte"
type_synonym image = "pixel matrix"
type_synonym block = "rat matrix"
type_synonym qblock = "32 word matrix"
type_synonym pystr = "nat list"

text \<open>
  The exceptions that can leave the two public methods. The capacity error is the
  \<open>ValueError\<close> raised at line 85 of \<open>main.py\<close>; it carries the two numbers
  that the message text reports: the image capacity in bytes and the size of the message
  in bytes. \<open>ValueError\<close> stands for the one raised by \<open>int\<close> and \<open>bytes\<close> and
  by a slice assignment of the wrong shape, \<open>IndexError\<close> for an index out of range,
  \<open>CvError\<close> for OpenCV refusing planes of different sizes.
\<close>

datatype error =
    FileNotFoundError
  | CapacityError int nat
  | ValueError
  | IndexError
  | CvError

definition LENGTH_HEADER_BITS :: nat where
  "LENGTH_HEADER_BITS = 32"

definition quantization_table :: "int matrix" where
  "quantization_table =
    [ [16, 11, 10, 16, 24, 40, 51, 61], [12, 12, 14, 19, 26, 58, 60, 55],
     [14, 13, 16, 24, 40, 57, 69, 56], [14, 17, 22, 29, 51, 87, 80, 62],
     [18, 22, 37, 56, 68, 109, 103, 77], [24, 35, 55, 64, 81, 104, 113, 92],
     [49, 64, 78, 87, 103, 121, 120, 101], [72, 92, 95, 98, 112, 100, 103, 99] ]"

definition height :: "'a matrix \<Rightarrow> nat" where
  "height m = length m"

definition width :: "'a matrix \<Rightarrow> nat" where
  "width m = (case m of [] \<Rightarrow> 0 | r # _ \<Rightarrow> length r)"

definition rect :: "'a matrix \<Rightarrow> bool" where
  "rect m = list_all (\<lambda>r. length r = width m) m"

definition has_shape :: "nat \<Rightarrow> nat \<Rightarrow> 'a matrix \<Rightarrow> bool" where
  "has_shape h w m = (length m = h \<and> list_all (\<lambda>r. length r = w) m)"

definition is_8x8 :: "'a matrix \<Rightarrow> bool" where
  "is_8x8 m = has_shape 8 8 m"

text \<open>
  The library functions that the program calls and whose code is not part of it: the
  UTF-8 codec of Python strings (a string is the list of its code points), the two colour
  conversions of OpenCV, which work pixel by pixel, and the orthonormal two-dimensional
  DCT and inverse DCT of SciPy on one block.
\<close>

record ext =
  utf8_encode :: "pystr \<Rightarrow> byte list"
  utf8_decode_ignore :: "byte list \<Rightarrow> pystr"
  bgr2ycrcb :: "pixel \<Rightarrow> pixel"
  ycrcb2bgr :: "pixel \<Rightarrow> pixel"
  dct2 :: "block \<Rightarrow> block"
  idct2 :: "block \<Rightarrow> block"

section \<open>Python built-ins on strings of digits\<close>

text \<open>The character of a digit below ten.\<close>

definition digit_char :: "nat \<Rightarrow> char" where
  "digit_char d = ''0123456789'' ! d"

text \<open>The digits of \<open>format(n, 'b')\<close>, most significant first.\<close>

fun bin_digits :: "nat \<Rightarrow> string" where
  "bin_digits n = (if n < 2 then [digit_char n] else bin_digits (n div 2) @ [digit_char (n mod 2)])"

declare bin_digits.simps [simp del]

text \<open>\<open>format(n, '0wb')\<close>: the binary digits, filled with zeros on the left up to width \<open>w\<close>
  and never cut.\<close>

definition format_0b :: "nat \<Rightarrow> nat \<Rightarrow> string" where
  "format_0b w n = replicate (w - length (bin_digits n)) (CHR ''0'') @ bin_digits n"

text \<open>The decimal digits of \<open>str(n)\<close>.\<close>

fun dec_digits :: "nat \<Rightarrow> string" where
  "dec_digits n = (if n < 10 then [digit_char n] else dec_digits (n div 10) @ [digit_char (n mod 10)])"

declare dec_digits.simps [simp del]

definition py_str_int :: "int \<Rightarrow> string" where
  "py_str_int i = (if i < 0 then CHR ''-'' # dec_digits (nat (- i)) else dec_digits (nat i))"

definition is_bin_char :: "char \<Rightarrow> bool" where
  "is_bin_char c = (c = CHR ''0'' \<or> c = CHR ''1'')"

definition bin_char_val :: "char \<Rightarrow> nat" where
  "bin_char_val c = (if c = CHR ''1'' then 1 else 0)"

text \<open>
  \<open>int(s, 2)\<close> on a string. Python accepts a non-empty string of binary digits and a
  few decorated forms (sign, prefix \<open>0b\<close>, surrounding blanks, underscores between
  digits) and raises \<open>ValueError\<close> on everything else. The model returns the value on
  the strings of binary digits and the error on every other string, so it fails at least
  where Python does.
\<close>

definition int_base2 :: "string \<Rightarrow> error + nat" where
  "int_base2 s = (if s \<noteq> [] \<and> list_all is_bin_char s
                  then Inr (foldl (\<lambda>a c. 2 * a + bin_char_val c) 0 s) else Inl ValueError)"

text \<open>\<open>int(c)\<close> on a one-character string: a decimal digit, or \<open>ValueError\<close>.\<close>

definition int_char :: "char \<Rightarrow> error + nat" where
  "int_char c =
     (let k = (of_char c :: nat) in if 48 \<le> k \<and> k \<le> 57 then Inr (k - 48) else Inl ValueError)"

text \<open>\<open>bytes(values)\<close>: every value must be in \<open>range(256)\<close>.\<close>

definition py_bytes :: "nat list \<Rightarrow> error + byte list" where
  "py_bytes vs = (if list_all (\<lambda>v. v < 256) vs then Inr (map of_nat vs) else Inl ValueError)"

section \<open>Payload codec\<close>

text \<open>\<open>_message_to_binary\<close>, lines 16 to 18.\<close>

definition message_to_binary :: "ext \<Rightarrow> pystr \<Rightarrow> string" where
  "message_to_binary x message =
     (let message_bytes = utf8_encode x message
      in concat (map (\<lambda>byte. format_0b 8 (unat byte)) message_bytes))"

text \<open>
  The loop of \<open>_binary_to_message\<close>, lines 22 to 25: the index \<open>i\<close> runs over
  \<open>range(0, len(binary_message), 8)\<close>, and a segment shorter than 8 ends the loop.
\<close>

function byte_values_loop :: "string \<Rightarrow> nat \<Rightarrow> nat list \<Rightarrow> error + nat list" where
  "byte_values_loop binary_message i byte_values =
     (if i < length binary_message then
        (let byte_segment = take 8 (drop i binary_message)
         in if length byte_segment < 8 then Inr byte_values
            else (case int_base2 byte_segment of
                    Inl e \<Rightarrow> Inl e
                  | Inr v \<Rightarrow> byte_values_loop binary_message (i + 8) (byte_values @ [v])))
      else Inr byte_values)"
  by pat_completeness auto
termination
  by (relation "measure (\<lambda>(s, i, acc). length s - i)") auto

declare byte_values_loop.simps [simp del]

text \<open>
  \<open>_binary_to_message\<close>, lines 20 to 31. An exception of the loop or of \<open>bytes\<close> is
  outside the \<open>try\<close> and leaves the method (\<open>Inl\<close>). The decoder with
  \<open>errors='ignore'\<close> returns a string for every byte sequence, so the \<open>except\<close>
  branch that returns \<open>None\<close> has nothing to catch.
\<close>

definition binary_to_message :: "ext \<Rightarrow> string \<Rightarrow> error + pystr option" where
  "binary_to_message x binary_message =
     (case byte_values_loop binary_message 0 [] of
        Inl e \<Rightarrow> Inl e
      | Inr byte_values \<Rightarrow>
          (case py_bytes byte_values of
             Inl e \<Rightarrow> Inl e
           | Inr message_bytes \<Rightarrow> Inr (Some (utf8_decode_ignore x message_bytes))))"

section \<open>Quantizer\<close>

text \<open>
  \<open>np.round\<close> rounds to the nearest integer and, at a tie, to the even one.
\<close>

definition np_round :: "rat \<Rightarrow> int" where
  "np_round v =
     (let f = \<lfloor>v\<rfloor>; d = v - of_int f
      in if d < 1 / 2 then f else if 1 / 2 < d then f + 1 else if even f then f else f + 1)"

text \<open>
  \<open>np.round(block / self.quantization_table).astype(np.int32)\<close>, lines 89, 121 and 132:
  the division and the rounding work element by element. The quotient is the exact one;
  the cast keeps the low 32 bits, and a quotient of DCT coefficients of 8-bit samples is
  far inside the 32-bit range.
\<close>

definition quantize :: "block \<Rightarrow> qblock" where
  "quantize blk =
     map2 (\<lambda>row trow. map2 (\<lambda>c t. word_of_int (np_round (c / of_int t))) row trow)
       blk quantization_table"

text \<open>\<open>quantized_block * self.quantization_table\<close>, line 95, an array of 64-bit integers.\<close>

definition dequantize :: "qblock \<Rightarrow> block" where
  "dequantize q =
     map2 (\<lambda>row trow. map2 (\<lambda>k t. of_int (sint k * t)) row trow) q quantization_table"

text \<open>Reading and writing the entry \<open>[2, 1]\<close> of an array; an index out of range raises.\<close>

definition get_21 :: "'a matrix \<Rightarrow> error + 'a" where
  "get_21 m = (if 2 < length m \<and> 1 < length (m ! 2) then Inr (m ! 2 ! 1) else Inl IndexError)"

definition set_21 :: "'a matrix \<Rightarrow> 'a \<Rightarrow> error + 'a matrix" where
  "set_21 m v =
     (if 2 < length m \<and> 1 < length (m ! 2) then Inr (m[2 := (m ! 2)[1 := v]]) else Inl IndexError)"

text \<open>
  Lines 90 to 93: \<open>quantized_block[2, 1] &= ~1\<close> when the payload digit is 0 and
  \<open>quantized_block[2, 1] |= 1\<close> otherwise.
\<close>

definition write_bit :: "nat \<Rightarrow> qblock \<Rightarrow> error + qblock" where
  "write_bit b q =
     (case get_21 q of
        Inl e \<Rightarrow> Inl e
      | Inr v \<Rightarrow> if b = 0 then set_21 q (v AND NOT 1) else set_21 q (v OR 1))"

text \<open>Lines 122 and 133: \<open>quantized_block[2, 1] & 1\<close>.\<close>

definition read_bit :: "qblock \<Rightarrow> error + 32 word" where
  "read_bit q = (case get_21 q of Inl e \<Rightarrow> Inl e | Inr v \<Rightarrow> Inr (v AND 1))"

section \<open>Embedding and extraction on the list of blocks\<close>

text \<open>
  The loop of lines 88 to 95 over \<open>range(len(full_binary_payload))\<close>. The list
  \<open>dct_blocks\<close> is changed in place; the model returns the exception, if one was
  raised, together with the list as it is at that moment.
\<close>

fun embed_loop :: "string \<Rightarrow> nat list \<Rightarrow> block list \<Rightarrow> error option \<times> block list" where
  "embed_loop full_binary_payload [] dct_blocks = (None, dct_blocks)"
| "embed_loop full_binary_payload (i # is) dct_blocks =
     (if i < length dct_blocks \<and> i < length full_binary_payload then
        (case int_char (full_binary_payload ! i) of
           Inl e \<Rightarrow> (Some e, dct_blocks)
         | Inr b \<Rightarrow>
             (case write_bit b (quantize (dct_blocks ! i)) of
                Inl e \<Rightarrow> (Some e, dct_blocks)
              | Inr quantized_block \<Rightarrow>
                  embed_loop full_binary_payload is
                    (dct_blocks[i := dequantize quantized_block])))
      else (Some IndexError, dct_blocks))"

text \<open>Lines 62 to 66.\<close>

definition full_binary_payload :: "ext \<Rightarrow> pystr \<Rightarrow> string" where
  "full_binary_payload x message =
     (let binary_message = message_to_binary x message;
          message_bit_length = length binary_message;
          length_binary = format_0b LENGTH_HEADER_BITS message_bit_length
      in length_binary @ binary_message)"

text \<open>
  Lines 62 to 95 of \<open>hide_message\<close>, on the list of blocks of the luma plane: the
  capacity check, which raises before the loop starts, and the loop.
\<close>

definition embed_payload :: "ext \<Rightarrow> pystr \<Rightarrow> block list \<Rightarrow> error option \<times> block list" where
  "embed_payload x message dct_blocks =
     (let payload = full_binary_payload x message
      in if length payload > length dct_blocks then
           (let message_byte_count = length (utf8_encode x message);
                image_capacity_bytes = (int (length dct_blocks) - int LENGTH_HEADER_BITS) div 8
            in (Some (CapacityError image_capacity_bytes message_byte_count), dct_blocks))
         else embed_loop payload [0..<length payload] dct_blocks)"

text \<open>
  The reading loop that \<open>reveal_message\<close> runs twice, lines 119 to 122 and 129 to 133:
  one character \<open>str(quantized_block[2, 1] & 1)\<close> is appended for each block index.
\<close>

fun read_bits :: "block list \<Rightarrow> nat list \<Rightarrow> string \<Rightarrow> error + string" where
  "read_bits dct_blocks [] acc = Inr acc"
| "read_bits dct_blocks (block_index # is) acc =
     (if block_index < length dct_blocks then
        (case read_bit (quantize (dct_blocks ! block_index)) of
           Inl e \<Rightarrow> Inl e
         | Inr v \<Rightarrow> read_bits dct_blocks is (acc @ py_str_int (sint v)))
      else Inl IndexError)"

text \<open>
  Lines 117 to 135 of \<open>reveal_message\<close>, on the list of blocks of the luma plane.
  \<open>Inr None\<close> is the result \<open>None\<close>. The only exception of \<open>int\<close> is
  \<open>ValueError\<close>, which line 125 turns into \<open>None\<close>.
\<close>

definition extract_payload :: "ext \<Rightarrow> block list \<Rightarrow> error + pystr option" where
  "extract_payload x dct_blocks =
     (if length dct_blocks < LENGTH_HEADER_BITS then Inr None
      else
        (case read_bits dct_blocks [0..<LENGTH_HEADER_BITS] [] of
           Inl e \<Rightarrow> Inl e
         | Inr length_binary \<Rightarrow>
             (case int_base2 length_binary of
                Inl e \<Rightarrow> Inr None
              | Inr message_length \<Rightarrow>
                  if int message_length > int (length dct_blocks) - int LENGTH_HEADER_BITS
                  then Inr None
                  else
                    (case read_bits dct_blocks
                            (map (\<lambda>i. LENGTH_HEADER_BITS + i) [0..<message_length]) [] of
                       Inl e \<Rightarrow> Inl e
                     | Inr binary_message \<Rightarrow> binary_to_message x binary_message))))"

section \<open>Images, planes and blocks\<close>

text \<open>
  \<open>_pad_image\<close>, lines 137 to 141: \<open>np.pad\<close> with a constant 0, nothing before
  and \<open>h_pad\<close> rows, \<open>w_pad\<close> columns after.
\<close>

definition pad_image :: "image \<Rightarrow> image" where
  "pad_image img =
     (let h_orig = height img; w_orig = width img;
          h_pad = (8 - h_orig mod 8) mod 8;
          w_pad = (8 - w_orig mod 8) mod 8
      in map (\<lambda>row. row @ replicate w_pad (0, 0, 0)) img
         @ replicate h_pad (replicate (w_orig + w_pad) (0, 0, 0)))"

text \<open>\<open>cv2.cvtColor\<close> converts every pixel on its own; \<open>cv2.split\<close> gives the three planes.\<close>

definition cvt_color :: "(pixel \<Rightarrow> pixel) \<Rightarrow> image \<Rightarrow> image" where
  "cvt_color f img = map (map f) img"

definition cv_split :: "image \<Rightarrow> byte matrix \<times> byte matrix \<times> byte matrix" where
  "cv_split img =
     (map (map (\<lambda>(a, b, c). a)) img, map (map (\<lambda>(a, b, c). b)) img, map (map (\<lambda>(a, b, c). c)) img)"

text \<open>\<open>cv2.merge\<close> wants three planes of one size.\<close>

definition cv_merge :: "byte matrix \<Rightarrow> byte matrix \<Rightarrow> byte matrix \<Rightarrow> error + image" where
  "cv_merge a b c =
     (if map length a = map length b \<and> map length b = map length c
      then Inr (map (\<lambda>(ra, rb, rc). zip ra (zip rb rc)) (zip a (zip b c)))
      else Inl CvError)"

text \<open>\<open>range(0, n, 8)\<close>.\<close>

definition range_step8 :: "nat \<Rightarrow> nat list" where
  "range_step8 n = map (\<lambda>k. 8 * k) [0..<(n + 7) div 8]"

text \<open>The slice \<open>a[i:i+8, j:j+8]\<close>, which is cut at the border of the array.\<close>

definition block_slice :: "'a matrix \<Rightarrow> nat \<Rightarrow> nat \<Rightarrow> 'a matrix" where
  "block_slice a i j = map (\<lambda>row. take 8 (drop j row)) (take 8 (drop i a))"

text \<open>\<open>_apply_dct\<close>, lines 33 to 40.\<close>

definition apply_dct :: "ext \<Rightarrow> byte matrix \<Rightarrow> block list \<times> nat \<times> nat" where
  "apply_dct x image_channel =
     (let h = height image_channel; w = width image_channel;
          dct_blocks =
            concat (map (\<lambda>i. map (\<lambda>j.
              dct2 x (map (map (\<lambda>s. of_nat (unat s) - 128)) (block_slice image_channel i j)))
              (range_step8 w)) (range_step8 h))
      in (dct_blocks, h, w))"

text \<open>
  The assignment \<open>a[i:i+8, j:j+8] = b\<close> of line 48: the block must have the shape of
  the slice, or the assignment raises \<open>ValueError\<close>. (NumPy also accepts a block that
  broadcasts to the slice; the model raises there, so it raises at least where NumPy
  does.)
\<close>

definition set_block :: "rat matrix \<Rightarrow> nat \<Rightarrow> nat \<Rightarrow> rat matrix \<Rightarrow> error + rat matrix" where
  "set_block a i j b =
     (if has_shape (min 8 (height a - i)) (min 8 (width a - j)) b
      then Inr (map (\<lambda>(y, row). if i \<le> y \<and> y < i + 8
                                then take j row @ b ! (y - i) @ drop (j + 8) row else row)
                 (enumerate 0 a))
      else Inl ValueError)"

text \<open>The nested iteration of lines 45 to 49; the state is the image and \<open>block_index\<close>.\<close>

fun idct_loop ::
  "ext \<Rightarrow> block list \<Rightarrow> (nat \<times> nat) list \<Rightarrow> rat matrix \<times> nat \<Rightarrow> error + rat matrix \<times> nat" where
  "idct_loop x dct_blocks [] st = Inr st"
| "idct_loop x dct_blocks ((i, j) # ps) (reconstructed_image, block_index) =
     (if block_index < length dct_blocks then
        (case set_block reconstructed_image i j (idct2 x (dct_blocks ! block_index)) of
           Inl e \<Rightarrow> Inl e
         | Inr a \<Rightarrow> idct_loop x dct_blocks ps (a, block_index + 1))
      else Inl IndexError)"

text \<open>\<open>_apply_idct\<close>, lines 42 to 50.\<close>

definition apply_idct :: "ext \<Rightarrow> block list \<Rightarrow> nat \<Rightarrow> nat \<Rightarrow> error + rat matrix" where
  "apply_idct x dct_blocks h w =
     (let reconstructed_image = replicate h (replicate w 0);
          positions = concat (map (\<lambda>i. map (\<lambda>j. (i, j)) (range_step8 w)) (range_step8 h))
      in case idct_loop x dct_blocks positions (reconstructed_image, 0) of
           Inl e \<Rightarrow> Inl e
         | Inr (a, k) \<Rightarrow> Inr (map (map (\<lambda>v. v + 128)) a))"

text \<open>\<open>np.clip(v, 0, 255).astype(np.uint8)\<close>, line 98: the cast cuts the fraction.\<close>

definition clip_uint8 :: "rat \<Rightarrow> byte" where
  "clip_uint8 v = word_of_int \<lfloor>min 255 (max 0 v)\<rfloor>"

text \<open>The slice \<open>a[:h, :w, :]\<close> of line 102.\<close>

definition crop :: "nat \<Rightarrow> nat \<Rightarrow> 'a matrix \<Rightarrow> 'a matrix" where
  "crop h w a = map (take w) (take h a)"

section \<open>The two public methods\<close>

text \<open>
  \<open>hide_message\<close>, lines 52 to 105. The argument is what \<open>cv2.imread\<close> returns for
  the path, \<open>None\<close> when the file cannot be read; the result is the image handed to
  \<open>cv2.imwrite\<close>.
\<close>

definition hide_message :: "ext \<Rightarrow> image option \<Rightarrow> pystr \<Rightarrow> error + image" where
  "hide_message x imread message =
     (case imread of
        None \<Rightarrow> Inl FileNotFoundError
      | Some img \<Rightarrow>
          (let h_orig = height img; w_orig = width img;
               padded_img = pad_image img;
               ycbcr_img = cvt_color (bgr2ycrcb x) padded_img;
               (y_channel, cr_channel, cb_channel) = cv_split ycbcr_img;
               (dct_blocks, h, w) = apply_dct x y_channel
           in case embed_payload x message dct_blocks of
                (Some e, _) \<Rightarrow> Inl e
              | (None, dct_blocks') \<Rightarrow>
                  (case apply_idct x dct_blocks' h w of
                     Inl e \<Rightarrow> Inl e
                   | Inr reconstructed \<Rightarrow>
                       (let reconstructed_y = map (map clip_uint8) reconstructed
                        in case cv_merge reconstructed_y cr_channel cb_channel of
                             Inl e \<Rightarrow> Inl e
                           | Inr stego_img_ycbcr \<Rightarrow>
                               Inr (crop h_orig w_orig
                                      (cvt_color (ycrcb2bgr x) stego_img_ycbcr))))))"

text \<open>\<open>reveal_message\<close>, lines 107 to 135.\<close>

definition reveal_message :: "ext \<Rightarrow> image option \<Rightarrow> error + pystr option" where
  "reveal_message x imread =
     (case imread of
        None \<Rightarrow> Inl FileNotFoundError
      | Some stego_img \<Rightarrow>
          (let padded_img = pad_image stego_img;
               ycbcr_img = cvt_color (bgr2ycrcb x) padded_img;
               (y_channel, cr_channel, cb_channel) = cv_split ycbcr_img;
               (dct_blocks, h, w) = apply_dct x y_channel
           in extract_payload x dct_blocks))"

text \<open>The number of 8 by 8 tiles of an array.\<close>

definition block_count :: "'a matrix \<Rightarrow> nat" where
  "block_count a = ((height a + 7) div 8) * ((width a + 7) div 8)"

text \<open>What the program relies on from SciPy: a transform returns an array of the shape
  of its argument.\<close>

definition keeps_8x8 :: "(block \<Rightarrow> block) \<Rightarrow> bool" where
  "keeps_8x8 f = (\<forall>b. is_8x8 b \<longrightarrow> is_8x8 (f b))"

section \<open>The payload as the specification words it\<close>

text \<open>The \<open>w\<close>-character binary representation of a number, most significant bit first.\<close>

definition msb_first_bits :: "nat \<Rightarrow> nat \<Rightarrow> string" where
  "msb_first_bits w n = map (\<lambda>i. if odd (n div 2 ^ (w - 1 - i)) then CHR ''1'' else CHR ''0'') [0..<w]"

text \<open>
  A 32-bit header with the bit length of the body, then every byte of the message as
  8 bits, most significant bit first, in byte order.
\<close>

definition spec_full_payload :: "byte list \<Rightarrow> string" where
  "spec_full_payload message_bytes =
     msb_first_bits 32 (8 * length message_bytes)
     @ concat (map (\<lambda>byte. msb_first_bits 8 (unat byte)) message_bytes)"

text \<open>The value of a string of binary digits, most significant digit first.\<close>

fun msb_value :: "string \<Rightarrow> nat" where
  "msb_value [] = 0"
| "msb_value (c # cs) = bin_char_val c * 2 ^ length cs + msb_value cs"

text \<open>
  The bytes of a bit string: the first \<open>8 * floor(n / 8)\<close> bits are kept, the incomplete
  group at the end is dropped, and every group of 8 bits gives one byte.
\<close>

definition spec_decode_bytes :: "string \<Rightarrow> byte list" where
  "spec_decode_bytes bits =
     (let kept = take (8 * (length bits div 8)) bits
      in map (\<lambda>k. of_nat (msb_value (take 8 (drop (8 * k) kept)))) [0..<length kept div 8])"

text \<open>
  The bit that a block carries: the least significant bit of the entry \<open>[2, 1]\<close> of the
  quantized block, as a character; and the bits carried by the blocks at a list of indices.
\<close>

definition carrier_bit :: "block \<Rightarrow> char" where
  "carrier_bit blk = (if bit (quantize blk ! 2 ! 1) 0 then CHR ''1'' else CHR ''0'')"

definition carrier_bits :: "block list \<Rightarrow> nat list \<Rightarrow> string" where
  "carrier_bits dct_blocks indices = map (\<lambda>i. carrier_bit (dct_blocks ! i)) indices"

text \<open>The 32-bit length that the first 32 blocks carry, most significant bit first.\<close>

definition header_length :: "block list \<Rightarrow> nat" where
  "header_length dct_blocks = msb_value (carrier_bits dct_blocks [0..<32])"

text \<open>
  The list \<open>dct_blocks\<close> that both methods compute from a loaded image: padding, colour
  conversion, the luma plane, the block transform (lines 57 to 68 and 111 to 115).
\<close>

definition luma_blocks :: "ext \<Rightarrow> image \<Rightarrow> block list" where
  "luma_blocks x img =
     fst (apply_dct x (fst (cv_split (cvt_color (bgr2ycrcb x) (pad_image img)))))"

section \<open>An instance for running the model\<close>

text \<open>
  Stand-ins for the library functions, used to evaluate the model on concrete inputs:
  a codec that maps a code point to one byte and back, and identity functions for the
  colour conversions and the transforms. Every theorem below is stated for arbitrary
  library functions; this instance only shows that the hypotheses can be met.
\<close>

definition demo_ext :: ext where
  "demo_ext = \<lparr>utf8_encode = map of_nat, utf8_decode_ignore = map unat,
                bgr2ycrcb = (\<lambda>p. p), ycrcb2bgr = (\<lambda>p. p),
                dct2 = (\<lambda>b. b), idct2 = (\<lambda>b. b)\<rparr>"

text \<open>A grey image of a given height and width, and a black one.\<close>

definition grey :: "nat \<Rightarrow> nat \<Rightarrow> image" where
  "grey h w = replicate h (replicate w (128, 128, 128))"

definition black :: "nat \<Rightarrow> nat \<Rightarrow> image" where
  "black h w = replicate h (replicate w (0, 0, 0))"

section \<open>Properties of the quantizer\<close>

lemma get_21_8x8: "is_8x8 q \<Longrightarrow> get_21 q = Inr (q ! 2 ! 1)"
  by (auto simp: get_21_def is_8x8_def has_shape_def list_all_length)

lemma set_21_8x8: "is_8x8 q \<Longrightarrow> set_21 q v = Inr (q[2 := (q ! 2)[1 := v]])"
  by (auto simp: set_21_def is_8x8_def has_shape_def list_all_length)

lemma is_8x8_update: "is_8x8 q \<Longrightarrow> is_8x8 (q[2 := (q ! 2)[1 := v]])"
  by (auto simp: is_8x8_def has_shape_def list_all_length nth_list_update)

lemma update_21_nth:
  "is_8x8 q \<Longrightarrow> r < 8 \<Longrightarrow> c < 8 \<Longrightarrow>
   q[2 := (q ! 2)[1 := v]] ! r ! c = (if r = 2 \<and> c = 1 then v else q ! r ! c)"
  by (auto simp: is_8x8_def has_shape_def list_all_length nth_list_update)

lemma and_not_one_and_one: "(v AND NOT 1) AND 1 = (0 :: 32 word)"
  by (rule bit_word_eqI) (auto simp: bit_simps)

lemma or_one_and_one: "(v OR 1) AND 1 = (1 :: 32 word)"
  by (rule bit_word_eqI) (auto simp: bit_simps)

text \<open>
  Claim C5. For every 8 by 8 matrix of 32-bit two's-complement integers (negative ones
  included, since every word is covered) and every bit \<open>b\<close>, the bit write succeeds,
  the entry at \<open>[2, 1]\<close> of the result has least significant bit \<open>b\<close>, every
  other entry is the one of the argument, and the bit read of the result gives \<open>b\<close>.
\<close>

theorem write_bit_read_bit:
  assumes q: "is_8x8 q" and b: "b = 0 \<or> b = 1"
  shows "\<exists>q'. write_bit b q = Inr q' \<and> is_8x8 q'
           \<and> q' ! 2 ! 1 AND 1 = of_nat b
           \<and> (\<forall>r<8. \<forall>c<8. (r, c) \<noteq> (2, 1) \<longrightarrow> q' ! r ! c = q ! r ! c)
           \<and> read_bit q' = Inr (of_nat b)"
proof -
  define v where "v = (if b = 0 then q ! 2 ! 1 AND NOT 1 else q ! 2 ! 1 OR 1)"
  define q' where "q' = q[2 := (q ! 2)[1 := v]]"
  have w: "write_bit b q = Inr q'"
    using q by (simp add: write_bit_def get_21_8x8 set_21_8x8 q'_def v_def)
  have s: "is_8x8 q'"
    unfolding q'_def by (rule is_8x8_update [OF q])
  have e: "q' ! r ! c = (if r = 2 \<and> c = 1 then v else q ! r ! c)" if "r < 8" "c < 8" for r c
    unfolding q'_def by (rule update_21_nth [OF q that])
  have v1: "v AND 1 = of_nat b"
  proof (cases "b = 0")
    case True
    then show ?thesis
      using and_not_one_and_one [of "q ! 2 ! 1"] by (simp add: v_def)
  next
    case False
    with b have "b = 1" by simp
    then show ?thesis
      using or_one_and_one [of "q ! 2 ! 1"] by (simp add: v_def)
  qed
  have c: "q' ! 2 ! 1 = v"
    using e [of 2 1] by simp
  have r: "read_bit q' = Inr (of_nat b)"
    by (simp only: read_bit_def get_21_8x8 [OF s] c v1 sum.case)
  have o: "q' ! r ! c = q ! r ! c" if "r < 8" "c < 8" "(r, c) \<noteq> (2, 1)" for r c
    using e [OF that(1,2)] that(3) by auto
  have l: "q' ! 2 ! 1 AND 1 = of_nat b"
    by (simp only: c v1)
  show ?thesis
    using w s l o r by blast
qed

theorem write_bit_read_bit_witness:
  "is_8x8 (replicate 8 (replicate 8 (- 3 :: 32 word))) \<and> ((0::nat) = 0 \<or> (0::nat) = 1)
   \<and> (\<exists>q'. write_bit 0 (replicate 8 (replicate 8 (- 3))) = Inr q' \<and> is_8x8 q'
           \<and> q' ! 2 ! 1 AND 1 = 0
           \<and> (\<forall>r<8. \<forall>c<8. (r, c) \<noteq> (2, 1) \<longrightarrow> q' ! r ! c = - 3)
           \<and> read_bit q' = Inr 0)"
proof -
  have h: "is_8x8 (replicate 8 (replicate 8 (- 3 :: 32 word)))"
    by (simp add: is_8x8_def has_shape_def list_all_length)
  have b: "(0::nat) = 0 \<or> (0::nat) = 1"
    by simp
  show ?thesis
    using h write_bit_read_bit [OF h b] by simp
qed

section \<open>Properties of the digit strings\<close>

lemma digit_char_0 [simp]: "digit_char 0 = CHR ''0''"
  by (simp add: digit_char_def)

lemma digit_char_1 [simp]: "digit_char (Suc 0) = CHR ''1''"
  by (simp add: digit_char_def)

lemma digit_char_mod2: "digit_char (n mod 2) = (if odd n then CHR ''1'' else CHR ''0'')"
  by (cases "even n") (auto simp: odd_iff_mod_2_eq_one)

lemma bin_digits_nonempty: "bin_digits n \<noteq> []"
  by (subst bin_digits.simps) simp

lemma bin_digits_small: "n < 2 \<Longrightarrow> bin_digits n = [digit_char n]"
  by (subst bin_digits.simps) simp

lemma bin_digits_large: "2 \<le> n \<Longrightarrow> bin_digits n = bin_digits (n div 2) @ [digit_char (n mod 2)]"
  by (subst bin_digits.simps) simp

lemma bin_digits_chars: "list_all is_bin_char (bin_digits n)"
proof (induction n rule: bin_digits.induct)
  case (1 n)
  show ?case
  proof (cases "n < 2")
    case True
    then have "n = 0 \<or> n = 1" by auto
    then show ?thesis using True by (auto simp: bin_digits_small is_bin_char_def)
  next
    case False
    then show ?thesis
      using 1 by (simp add: bin_digits_large digit_char_mod2 is_bin_char_def)
  qed
qed

lemma length_bin_digits_le: "0 < w \<Longrightarrow> n < 2 ^ w \<Longrightarrow> length (bin_digits n) \<le> w"
proof (induction n arbitrary: w rule: bin_digits.induct)
  case (1 n)
  show ?case
  proof (cases "n < 2")
    case True
    then show ?thesis using "1.prems" by (simp add: bin_digits_small)
  next
    case False
    have "w \<noteq> 0" "w \<noteq> 1"
      using False "1.prems" by auto
    then obtain v where v: "w = Suc v" "0 < v"
      by (cases w) auto
    have "n div 2 < 2 ^ v"
      using "1.prems" v by (simp add: less_mult_imp_div_less)
    then have "length (bin_digits (n div 2)) \<le> v"
      using "1.IH" False v by simp
    then show ?thesis using False v by (simp add: bin_digits_large)
  qed
qed

lemma length_bin_digits_gt: "2 ^ w \<le> n \<Longrightarrow> w < length (bin_digits n)"
proof (induction n arbitrary: w rule: bin_digits.induct)
  case (1 n)
  show ?case
  proof (cases w)
    case 0
    then show ?thesis by (simp add: bin_digits_nonempty)
  next
    case (Suc v)
    have p: "2 * 2 ^ v \<le> n" using "1.prems" Suc by simp
    have "(1::nat) \<le> 2 ^ v" by simp
    then have n2: "2 \<le> n" using p by linarith
    have "2 ^ v \<le> n div 2"
      using p by linarith
    then have "v < length (bin_digits (n div 2))"
      using "1.IH" n2 by simp
    then show ?thesis using n2 Suc by (simp add: bin_digits_large)
  qed
qed

lemma length_format_0b: "length (format_0b w n) = max w (length (bin_digits n))"
  by (simp add: format_0b_def)

lemma length_format_0b_fit: "0 < w \<Longrightarrow> n < 2 ^ w \<Longrightarrow> length (format_0b w n) = w"
  using length_bin_digits_le [of w n] by (simp add: length_format_0b)

text \<open>From \<open>2 ^ w\<close> on, the formatted number is wider than the requested width.\<close>

lemma format_0b_wide: "2 ^ w \<le> n \<Longrightarrow> w < length (format_0b w n)"
  using length_bin_digits_gt [of w n] by (simp add: length_format_0b)

lemma format_0b_chars: "list_all is_bin_char (format_0b w n)"
proof -
  have "list_all is_bin_char (replicate k (CHR ''0''))" for k
    by (induction k) (simp_all add: is_bin_char_def)
  then show ?thesis
    using bin_digits_chars [of n] by (simp add: format_0b_def)
qed

lemma format_0b_Suc:
  assumes "0 < w"
  shows "format_0b (Suc w) n = format_0b w (n div 2) @ [digit_char (n mod 2)]"
proof (cases "n < 2")
  case True
  then have "n div 2 = 0" "n mod 2 = n" by auto
  moreover obtain k where "w = Suc k" using assms by (cases w) auto
  ultimately show ?thesis
    using True
    by (simp add: format_0b_def bin_digits_small replicate_append_same)
next
  case False
  then show ?thesis
    by (simp add: format_0b_def bin_digits_large)
qed

lemma msb_first_bits_Suc:
  "msb_first_bits (Suc w) n = msb_first_bits w (n div 2) @ [if odd n then CHR ''1'' else CHR ''0'']"
proof -
  have "n div 2 ^ (w - i) = n div 2 div 2 ^ (w - 1 - i)" if "i < w" for i
  proof -
    have "w - i = Suc (w - 1 - i)" using that by simp
    then show ?thesis by (simp add: div_mult2_eq)
  qed
  then show ?thesis
    by (simp add: msb_first_bits_def)
qed

lemma format_0b_msb_first: "0 < w \<Longrightarrow> n < 2 ^ w \<Longrightarrow> format_0b w n = msb_first_bits w n"
proof (induction w arbitrary: n)
  case 0
  then show ?case by simp
next
  case (Suc w)
  show ?case
  proof (cases "w = 0")
    case True
    then have "n < 2" using Suc.prems by simp
    then have "n = 0 \<or> n = 1" by auto
    then show ?thesis using True
      by (auto simp: format_0b_def bin_digits_small msb_first_bits_def)
  next
    case False
    have "n < 2 * 2 ^ w" using Suc.prems by simp
    then have "n div 2 < 2 ^ w" by linarith
    then have "format_0b w (n div 2) = msb_first_bits w (n div 2)"
      using Suc.IH False by simp
    then show ?thesis using False
      by (simp add: format_0b_Suc msb_first_bits_Suc digit_char_mod2)
  qed
qed

section \<open>Properties of the payload codec\<close>

lemma format_0b_byte: "format_0b 8 (unat (b :: byte)) = msb_first_bits 8 (unat b)"
proof -
  have "unat b < 2 ^ 8"
    using unsigned_less [of b] by simp
  then show ?thesis
    by (intro format_0b_msb_first) simp_all
qed

lemma length_msb_first_bits: "length (msb_first_bits w n) = w"
  by (simp add: msb_first_bits_def)

lemma message_to_binary_spec:
  "message_to_binary x m = concat (map (\<lambda>byte. msb_first_bits 8 (unat byte)) (utf8_encode x m))"
  by (simp add: message_to_binary_def format_0b_byte)

lemma length_concat_const:
  "(\<And>y. y \<in> set ys \<Longrightarrow> length (f y) = k) \<Longrightarrow> length (concat (map f ys)) = k * length ys"
  by (induction ys) simp_all

lemma length_message_to_binary:
  "length (message_to_binary x m) = 8 * length (utf8_encode x m)"
  unfolding message_to_binary_spec
  by (rule length_concat_const) (rule length_msb_first_bits)

lemma message_to_binary_chars: "list_all is_bin_char (message_to_binary x m)"
proof -
  have "list_all is_bin_char (concat (map (\<lambda>byte. format_0b 8 (unat byte)) bs))" for bs :: "byte list"
    by (induction bs) (simp_all add: format_0b_chars)
  then show ?thesis by (simp add: message_to_binary_def)
qed

lemma full_binary_payload_unfold:
  "full_binary_payload x m =
     format_0b 32 (8 * length (utf8_encode x m)) @ message_to_binary x m"
  by (simp add: full_binary_payload_def Let_def LENGTH_HEADER_BITS_def length_message_to_binary)

lemma full_binary_payload_chars: "list_all is_bin_char (full_binary_payload x m)"
  by (simp add: full_binary_payload_unfold format_0b_chars message_to_binary_chars)

lemma length_full_binary_payload:
  "length (full_binary_payload x m) =
     max 32 (length (bin_digits (8 * length (utf8_encode x m)))) + 8 * length (utf8_encode x m)"
  by (simp add: full_binary_payload_unfold length_format_0b length_message_to_binary)

lemma length_full_binary_payload_fit:
  "8 * length (utf8_encode x m) < 2 ^ 32 \<Longrightarrow>
   length (full_binary_payload x m) = 32 + 8 * length (utf8_encode x m)"
  by (simp add: full_binary_payload_unfold length_format_0b_fit length_message_to_binary)

lemma msb_first_bits_0: "msb_first_bits 0 n = []"
  by (simp add: msb_first_bits_def)

lemma msb_first_bits_numeral:
  "msb_first_bits (numeral k) n =
     msb_first_bits (pred_numeral k) (n div 2) @ [if odd n then CHR ''1'' else CHR ''0'']"
  by (simp only: numeral_eq_Suc msb_first_bits_Suc)

text \<open>
  Claim C4. When the bit length of the UTF-8 encoding of the message is below \<open>2^32\<close>,
  the payload that \<open>hide_message\<close> embeds is the 32-character binary representation of
  that bit length, most significant bit first, followed by the bytes of the encoding,
  each as 8 bits, most significant bit first, in byte order.
\<close>

theorem full_binary_payload_spec:
  assumes "8 * length (utf8_encode x message) < 2 ^ 32"
  shows "full_binary_payload x message = spec_full_payload (utf8_encode x message)"
proof -
  have "format_0b 32 (8 * length (utf8_encode x message))
          = msb_first_bits 32 (8 * length (utf8_encode x message))"
    using assms by (intro format_0b_msb_first) simp_all
  then show ?thesis
    by (simp add: full_binary_payload_unfold message_to_binary_spec spec_full_payload_def)
qed


theorem full_binary_payload_spec_witness:
  "8 * length (utf8_encode demo_ext [65]) < (2::nat) ^ 32
   \<and> full_binary_payload demo_ext [65] = ''0000000000000000000000000000100001000001''"
proof -
  have h: "8 * length (utf8_encode demo_ext [65]) < (2::nat) ^ 32"
    by (simp add: demo_ext_def)
  have "spec_full_payload (utf8_encode demo_ext [65]) = ''0000000000000000000000000000100001000001''"
    by (simp add: spec_full_payload_def demo_ext_def msb_first_bits_numeral msb_first_bits_Suc
        msb_first_bits_0)
  then show ?thesis
    using h full_binary_payload_spec [OF h] by simp
qed

section \<open>Shapes and entries of quantized blocks\<close>

lemma has_shape_map2:
  assumes "has_shape h w a" and "has_shape h w b"
  shows "has_shape h w (map2 (\<lambda>row trow. map2 f row trow) a b)"
  using assms by (auto simp: has_shape_def list_all_length)

lemma nth_map2_map2:
  assumes "has_shape h w a" and "has_shape h w b" and "r < h" and "c < w"
  shows "map2 (\<lambda>row trow. map2 f row trow) a b ! r ! c = f (a ! r ! c) (b ! r ! c)"
  using assms by (auto simp: has_shape_def list_all_length)

lemma quantization_table_8x8: "is_8x8 quantization_table"
  by (simp add: is_8x8_def has_shape_def quantization_table_def)

lemma is_8x8_quantize: "is_8x8 blk \<Longrightarrow> is_8x8 (quantize blk)"
  using has_shape_map2 [OF _ quantization_table_8x8 [unfolded is_8x8_def]]
  by (simp add: is_8x8_def quantize_def)

lemma is_8x8_dequantize: "is_8x8 q \<Longrightarrow> is_8x8 (dequantize q)"
  using has_shape_map2 [OF _ quantization_table_8x8 [unfolded is_8x8_def]]
  by (simp add: is_8x8_def dequantize_def)

lemma quantize_nth:
  assumes "is_8x8 blk" and "r < 8" and "c < 8"
  shows "quantize blk ! r ! c
           = word_of_int (np_round (blk ! r ! c / of_int (quantization_table ! r ! c)))"
  using assms quantization_table_8x8 unfolding is_8x8_def quantize_def
  by (simp add: nth_map2_map2)

lemma dequantize_nth:
  assumes "is_8x8 q" and "r < 8" and "c < 8"
  shows "dequantize q ! r ! c = of_int (sint (q ! r ! c) * quantization_table ! r ! c)"
  using assms quantization_table_8x8 unfolding is_8x8_def dequantize_def
  by (simp add: nth_map2_map2)

lemma np_round_cases:
  fixes v :: rat
  defines "d \<equiv> v - of_int \<lfloor>v\<rfloor>"
  shows "np_round v = (if d < 1 / 2 then \<lfloor>v\<rfloor> else if 1 / 2 < d then \<lfloor>v\<rfloor> + 1
                       else if even \<lfloor>v\<rfloor> then \<lfloor>v\<rfloor> else \<lfloor>v\<rfloor> + 1)"
  by (simp add: np_round_def Let_def d_def)

lemma np_round_half: "\<bar>v - of_int (np_round v)\<bar> \<le> 1 / 2"
proof -
  have "of_int \<lfloor>v\<rfloor> \<le> v" "v < of_int \<lfloor>v\<rfloor> + 1"
    by linarith+
  then show ?thesis
    by (auto simp: np_round_cases)
qed

lemma np_round_nearest:
  fixes k :: int
  shows "\<bar>v - of_int (np_round v)\<bar> \<le> \<bar>v - of_int k\<bar>"
proof (cases "k = np_round v")
  case True
  then show ?thesis by simp
next
  case False
  then have "1 \<le> \<bar>k - np_round v\<bar>" by linarith
  then have "(1::rat) \<le> of_int \<bar>k - np_round v\<bar>"
    by (metis of_int_1 of_int_le_iff)
  then have "(1::rat) \<le> \<bar>of_int k - of_int (np_round v)\<bar>"
    by simp
  then show ?thesis
    using np_round_half [of v] by linarith
qed

lemma np_round_tie_even:
  "v - of_int \<lfloor>v\<rfloor> = 1 / 2 \<Longrightarrow> even (np_round v)"
  by (simp add: np_round_cases)


text \<open>
  Claim C9. Quantization works entry by entry: the entry \<open>[r, c]\<close> of the quantized
  block is the entry of the coefficient block divided by the entry of the fixed table and
  rounded to a nearest integer (no integer is nearer to the quotient), kept as a 32-bit
  integer; dequantization multiplies the integer by the same table entry. The encoder
  step on block \<open>i\<close> and the decoder step on block \<open>i\<close> both start from
  \<open>quantize\<close> of that block, with one table and one rounding.
\<close>

theorem quantize_dequantize_elementwise:
  assumes "is_8x8 blk" and "is_8x8 q" and "r < 8" and "c < 8"
  shows "quantize blk ! r ! c
           = word_of_int (np_round (blk ! r ! c / of_int (quantization_table ! r ! c)))
       \<and> (\<forall>k::int. \<bar>blk ! r ! c / of_int (quantization_table ! r ! c)
                      - of_int (np_round (blk ! r ! c / of_int (quantization_table ! r ! c)))\<bar>
                   \<le> \<bar>blk ! r ! c / of_int (quantization_table ! r ! c) - of_int k\<bar>)
       \<and> dequantize q ! r ! c = of_int (sint (q ! r ! c) * quantization_table ! r ! c)
       \<and> (i < length bs \<and> i < length p \<and> int_char (p ! i) = Inr d \<longrightarrow>
            embed_loop p [i] bs
              = (case write_bit d (quantize (bs ! i)) of
                   Inl e \<Rightarrow> (Some e, bs)
                 | Inr q' \<Rightarrow> (None, bs[i := dequantize q'])))
       \<and> (i < length bs \<longrightarrow>
            read_bits bs [i] acc
              = (case read_bit (quantize (bs ! i)) of
                   Inl e \<Rightarrow> Inl e
                 | Inr v \<Rightarrow> Inr (acc @ py_str_int (sint v))))"
proof (intro conjI allI impI)
  show "quantize blk ! r ! c
          = word_of_int (np_round (blk ! r ! c / of_int (quantization_table ! r ! c)))"
    using assms by (simp add: quantize_nth)
  show "dequantize q ! r ! c = of_int (sint (q ! r ! c) * quantization_table ! r ! c)"
    using assms by (simp add: dequantize_nth)
  show "\<bar>blk ! r ! c / of_int (quantization_table ! r ! c)
          - of_int (np_round (blk ! r ! c / of_int (quantization_table ! r ! c)))\<bar>
        \<le> \<bar>blk ! r ! c / of_int (quantization_table ! r ! c) - of_int k\<bar>" for k :: int
    by (rule np_round_nearest)
  show "embed_loop p [i] bs
          = (case write_bit d (quantize (bs ! i)) of
               Inl e \<Rightarrow> (Some e, bs)
             | Inr q' \<Rightarrow> (None, bs[i := dequantize q']))"
    if "i < length bs \<and> i < length p \<and> int_char (p ! i) = Inr d"
    using that by (simp split: sum.splits)
  show "read_bits bs [i] acc
          = (case read_bit (quantize (bs ! i)) of
               Inl e \<Rightarrow> Inl e
             | Inr v \<Rightarrow> Inr (acc @ py_str_int (sint v)))"
    if "i < length bs"
    using that by (simp split: sum.splits)
qed

lemma np_round_example: "np_round (1024 / 13) = 79"
  by code_simp

lemma int_char_1: "int_char (CHR ''1'') = Inr 1"
  by (simp add: int_char_def)

theorem quantize_dequantize_elementwise_witness:
  "is_8x8 (replicate 8 (replicate 8 (1024 :: rat)))
   \<and> is_8x8 (replicate 8 (replicate 8 (- 3 :: 32 word)))
   \<and> (2::nat) < 8 \<and> (1::nat) < 8
   \<and> ((0::nat) < length [replicate 8 (replicate 8 (1024 :: rat))] \<and> (0::nat) < length ''1''
        \<and> int_char (''1'' ! 0) = Inr 1)
   \<and> quantize (replicate 8 (replicate 8 1024)) ! 2 ! 1 = 79
   \<and> dequantize (replicate 8 (replicate 8 (- 3))) ! 2 ! 1 = - 39
   \<and> embed_loop ''1'' [0] [replicate 8 (replicate 8 1024)]
        = (case write_bit 1 (quantize ([replicate 8 (replicate 8 1024)] ! 0)) of
             Inl e \<Rightarrow> (Some e, [replicate 8 (replicate 8 1024)])
           | Inr q' \<Rightarrow> (None, [replicate 8 (replicate 8 1024)][0 := dequantize q']))
   \<and> read_bits [replicate 8 (replicate 8 1024)] [0] []
        = (case read_bit (quantize ([replicate 8 (replicate 8 1024)] ! 0)) of
             Inl e \<Rightarrow> Inl e
           | Inr v \<Rightarrow> Inr ([] @ py_str_int (sint v)))"
proof -
  have b: "is_8x8 (replicate 8 (replicate 8 (1024 :: rat)))"
    by (simp add: is_8x8_def has_shape_def list_all_length)
  have q: "is_8x8 (replicate 8 (replicate 8 (- 3 :: 32 word)))"
    by (simp add: is_8x8_def has_shape_def list_all_length)
  have r: "(2::nat) < 8" and c: "(1::nat) < 8"
    by simp_all
  have h: "(0::nat) < length [replicate 8 (replicate 8 (1024 :: rat))] \<and> (0::nat) < length ''1''
        \<and> int_char (''1'' ! 0) = Inr 1"
    by (simp add: int_char_1)
  have h': "(0::nat) < length [replicate 8 (replicate 8 (1024 :: rat))]"
    by simp
  have t: "quantization_table ! 2 ! 1 = 13"
    by (simp add: quantization_table_def)
  note w = quantize_dequantize_elementwise [OF b q r c, of 0
      "[replicate 8 (replicate 8 1024)]" "''1''" 1 "[]"]
  have e1: "replicate 8 (replicate 8 (1024 :: rat)) ! 2 ! 1 = 1024"
    by simp
  have e2: "replicate 8 (replicate 8 (- 3 :: 32 word)) ! 2 ! 1 = - 3"
    by simp
  have w1: "quantize (replicate 8 (replicate 8 1024)) ! 2 ! 1 = 79"
    using w by (simp only: e1 t) (simp add: np_round_example)
  have w3: "dequantize (replicate 8 (replicate 8 (- 3))) ! 2 ! 1 = - 39"
    using w by (simp only: e2 t) simp
  have w4: "embed_loop ''1'' [0] [replicate 8 (replicate 8 1024)]
        = (case write_bit 1 (quantize ([replicate 8 (replicate 8 1024)] ! 0)) of
             Inl e \<Rightarrow> (Some e, [replicate 8 (replicate 8 1024)])
           | Inr q' \<Rightarrow> (None, [replicate 8 (replicate 8 1024)][0 := dequantize q']))"
    using w h by blast
  have w5: "read_bits [replicate 8 (replicate 8 1024)] [0] []
        = (case read_bit (quantize ([replicate 8 (replicate 8 1024)] ! 0)) of
             Inl e \<Rightarrow> Inl e
           | Inr v \<Rightarrow> Inr ([] @ py_str_int (sint v)))"
    using w h' by blast
  show ?thesis
    using b q r c h w1 w3 w4 w5 by blast
qed

section \<open>Properties of the decoder of bit strings\<close>

lemma foldl_horner:
  "foldl (\<lambda>a c. 2 * a + bin_char_val c) a s = a * 2 ^ length s + msb_value s"
  by (induction s arbitrary: a) (simp_all add: algebra_simps)

lemma int_base2_msb_value:
  "s \<noteq> [] \<Longrightarrow> list_all is_bin_char s \<Longrightarrow> int_base2 s = Inr (msb_value s)"
  by (simp add: int_base2_def foldl_horner)

lemma msb_value_less: "msb_value s < 2 ^ length s"
proof (induction s)
  case Nil
  then show ?case by simp
next
  case (Cons c s)
  have "bin_char_val c \<le> 1" by (simp add: bin_char_val_def)
  then have "bin_char_val c * 2 ^ length s \<le> 1 * 2 ^ length s"
    by (rule mult_le_mono1)
  then have a: "bin_char_val c * 2 ^ length s \<le> 2 ^ length s"
    by simp
  have "msb_value (c # s) = bin_char_val c * 2 ^ length s + msb_value s"
    by simp
  moreover have "(2::nat) ^ length (c # s) = 2 * 2 ^ length s"
    by simp
  ultimately show ?case using a Cons by linarith
qed

lemma list_all_take_drop: "list_all P xs \<Longrightarrow> list_all P (take n (drop i xs))"
  by (auto simp: list_all_iff dest: in_set_takeD in_set_dropD)

lemma byte_values_loop_groups:
  assumes "list_all is_bin_char bits"
  shows "byte_values_loop bits (8 * j) acc
           = Inr (acc @ map (\<lambda>k. msb_value (take 8 (drop (8 * k) bits))) [j..<length bits div 8])"
proof (induction "length bits div 8 - j" arbitrary: j acc)
  case 0
  then have j: "length bits div 8 \<le> j" by simp
  then have "length bits < 8 * j + 8" by linarith
  then have "length (take 8 (drop (8 * j) bits)) < 8" by simp
  then show ?case using j
    by (subst byte_values_loop.simps) (simp add: Let_def)
next
  case (Suc n)
  then have j: "j < length bits div 8" by simp
  then have l: "8 * j + 8 \<le> length bits" by linarith
  define seg where "seg = take 8 (drop (8 * j) bits)"
  have len: "length seg = 8" using l by (simp add: seg_def)
  then have ne: "seg \<noteq> []" by auto
  have "list_all is_bin_char seg"
    unfolding seg_def using assms by (rule list_all_take_drop)
  then have v: "int_base2 seg = Inr (msb_value seg)"
    using ne by (rule int_base2_msb_value [rotated])
  have n: "n = length bits div 8 - Suc j" using Suc(2) by simp
  have ih: "byte_values_loop bits (8 * Suc j) (acc @ [msb_value seg])
      = Inr ((acc @ [msb_value seg])
             @ map (\<lambda>k. msb_value (take 8 (drop (8 * k) bits))) [Suc j..<length bits div 8])"
    by (rule Suc(1) [OF n])
  have u: "[j..<length bits div 8] = j # [Suc j..<length bits div 8]"
    using j by (simp add: upt_conv_Cons)
  have step: "byte_values_loop bits (8 * j) acc
          = byte_values_loop bits (8 * j + 8) (acc @ [msb_value seg])"
    using l len v by (subst byte_values_loop.simps) (simp add: Let_def seg_def [symmetric])
  have eq: "8 * j + 8 = 8 * Suc j"
    by simp
  show ?case
    unfolding step eq ih u by (simp add: seg_def)
qed

lemma py_bytes_groups:
  "py_bytes (map (\<lambda>k. msb_value (take 8 (drop (8 * k) bits))) ks)
     = Inr (map (\<lambda>k. of_nat (msb_value (take 8 (drop (8 * k) bits)))) ks)"
proof -
  have "msb_value (take 8 (drop (8 * k) bits)) < 256" for k
  proof -
    have "msb_value (take 8 (drop (8 * k) bits)) < 2 ^ length (take 8 (drop (8 * k) bits))"
      by (rule msb_value_less)
    also have "\<dots> \<le> 2 ^ 8"
      by (rule power_increasing) simp_all
    finally show ?thesis by simp
  qed
  then show ?thesis
    by (simp add: py_bytes_def list_all_iff comp_def)
qed

lemma spec_decode_bytes_groups:
  "spec_decode_bytes bits
     = map (\<lambda>k. of_nat (msb_value (take 8 (drop (8 * k) bits)))) [0..<length bits div 8]"
proof -
  have len: "length (take (8 * (length bits div 8)) bits) = 8 * (length bits div 8)"
    by simp
  have seg: "take 8 (drop (8 * k) (take (8 * (length bits div 8)) bits))
               = take 8 (drop (8 * k) bits)" if "k < length bits div 8" for k
  proof -
    have "8 * k + 8 \<le> 8 * (length bits div 8)" using that by simp
    then have "min 8 (8 * (length bits div 8) - 8 * k) = 8" by simp
    then show ?thesis
      by (simp add: drop_take)
  qed
  show ?thesis
    unfolding spec_decode_bytes_def Let_def len
    by (simp add: seg)
qed

lemma binary_to_message_bits:
  assumes "list_all is_bin_char bits"
  shows "binary_to_message x bits = Inr (Some (utf8_decode_ignore x (spec_decode_bytes bits)))"
proof -
  have "byte_values_loop bits 0 []
          = Inr (map (\<lambda>k. msb_value (take 8 (drop (8 * k) bits))) [0..<length bits div 8])"
    using byte_values_loop_groups [OF assms, of 0 "[]"] by simp
  then show ?thesis
    by (simp add: binary_to_message_def py_bytes_groups spec_decode_bytes_groups)
qed

text \<open>
  Claim C6. For every string of the characters 0 and 1, of any length,
  \<open>_binary_to_message\<close> raises nothing and returns the lenient UTF-8 decoding of the
  bytes made of the complete groups of 8 bits; the incomplete group at the end is dropped.
\<close>

theorem binary_to_message_total:
  assumes "list_all is_bin_char bits"
  shows "binary_to_message x bits = Inr (Some (utf8_decode_ignore x (spec_decode_bytes bits)))"
  using assms by (rule binary_to_message_bits)

theorem binary_to_message_total_witness:
  "list_all is_bin_char ''0100000101''
   \<and> binary_to_message demo_ext ''0100000101'' = Inr (Some [65])
   \<and> list_all is_bin_char ''''
   \<and> binary_to_message demo_ext '''' = Inr (Some [])"
proof -
  have h: "list_all is_bin_char ''0100000101''"
    by (simp add: is_bin_char_def)
  have e: "list_all is_bin_char ''''"
    by simp
  have "utf8_decode_ignore demo_ext (spec_decode_bytes ''0100000101'') = [65]"
    by (simp add: spec_decode_bytes_def demo_ext_def bin_char_val_def)
  moreover have "utf8_decode_ignore demo_ext (spec_decode_bytes '''') = []"
    by (simp add: spec_decode_bytes_def demo_ext_def)
  ultimately show ?thesis
    using h e binary_to_message_total [OF h, of demo_ext]
      binary_to_message_total [OF e, of demo_ext]
    by simp
qed

section \<open>Properties of the iterations over the blocks\<close>

lemma int_char_bin: "is_bin_char c \<Longrightarrow> int_char c = Inr (bin_char_val c)"
  by (auto simp: is_bin_char_def int_char_def bin_char_val_def)

lemma is_8x8_list_update: "is_8x8 q \<Longrightarrow> is_8x8 (q[i := (q ! i)[j := v]])"
  by (cases "i < length q")
    (auto simp: is_8x8_def has_shape_def list_all_length nth_list_update list_update_beyond)

lemma write_bit_8x8:
  assumes "is_8x8 q"
  shows "\<exists>q'. write_bit b q = Inr q' \<and> is_8x8 q'"
  using assms by (simp add: write_bit_def get_21_8x8 set_21_8x8 is_8x8_list_update)

lemma embed_loop_ok:
  assumes "list_all is_bin_char payload"
    and "list_all is_8x8 dct_blocks"
    and "list_all (\<lambda>i. i < length dct_blocks \<and> i < length payload) indices"
  shows "\<exists>bs. embed_loop payload indices dct_blocks = (None, bs)
            \<and> length bs = length dct_blocks \<and> list_all is_8x8 bs"
  using assms(2,3)
proof (induction indices arbitrary: dct_blocks)
  case Nil
  then show ?case by simp
next
  case (Cons i indices)
  then have i: "i < length dct_blocks" "i < length payload"
    by simp_all
  have c: "int_char (payload ! i) = Inr (bin_char_val (payload ! i))"
    using assms(1) i(2) by (intro int_char_bin) (simp add: list_all_length)
  have "is_8x8 (quantize (dct_blocks ! i))"
    using Cons.prems(1) i(1) by (intro is_8x8_quantize) (simp add: list_all_length)
  then obtain q' where q': "write_bit (bin_char_val (payload ! i)) (quantize (dct_blocks ! i)) = Inr q'"
      "is_8x8 q'"
    using write_bit_8x8 by blast
  define bs' where "bs' = dct_blocks[i := dequantize q']"
  have l: "length bs' = length dct_blocks"
    by (simp add: bs'_def)
  have s: "list_all is_8x8 bs'"
    using Cons.prems(1) q'(2) i(1)
    by (auto simp: bs'_def list_all_length nth_list_update is_8x8_dequantize)
  have "list_all (\<lambda>i. i < length bs' \<and> i < length payload) indices"
    using Cons.prems(2) by (simp add: l)
  then obtain bs where "embed_loop payload indices bs' = (None, bs)"
      "length bs = length bs'" "list_all is_8x8 bs"
    using Cons.IH [OF s] by blast
  then show ?case
    using i c q'(1) l by (simp add: bs'_def)
qed

lemma and_one_bit0: "(v :: 32 word) AND 1 = (if bit v 0 then 1 else 0)"
  by (simp add: and_one_eq mod_2_eq_odd bit_0)

lemma py_str_int_0: "py_str_int 0 = ''0''"
  by (simp add: py_str_int_def dec_digits.simps)

lemma py_str_int_1: "py_str_int 1 = ''1''"
  by (simp add: py_str_int_def dec_digits.simps)

lemma read_bit_8x8:
  "is_8x8 blk \<Longrightarrow> read_bit (quantize blk) = Inr (if bit (quantize blk ! 2 ! 1) 0 then 1 else 0)"
  by (simp only: read_bit_def get_21_8x8 [OF is_8x8_quantize] sum.case and_one_bit0)

lemma read_bits_ok:
  assumes "list_all is_8x8 dct_blocks"
    and "list_all (\<lambda>i. i < length dct_blocks) indices"
  shows "read_bits dct_blocks indices acc = Inr (acc @ carrier_bits dct_blocks indices)"
  using assms(2)
proof (induction indices arbitrary: acc)
  case Nil
  then show ?case by (simp add: carrier_bits_def)
next
  case (Cons i indices)
  then have i: "i < length dct_blocks" by simp
  then have "is_8x8 (dct_blocks ! i)"
    using assms(1) by (simp add: list_all_length)
  then have r: "read_bit (quantize (dct_blocks ! i))
                  = Inr (if bit (quantize (dct_blocks ! i) ! 2 ! 1) 0 then 1 else 0)"
    by (rule read_bit_8x8)
  have ih: "read_bits dct_blocks indices acc' = Inr (acc' @ carrier_bits dct_blocks indices)" for acc'
    using Cons by simp
  show ?case
    using i by (simp only: read_bits.simps r sum.case if_True ih)
      (simp add: carrier_bits_def carrier_bit_def py_str_int_0 py_str_int_1)
qed

lemma carrier_bits_chars: "list_all is_bin_char (carrier_bits dct_blocks indices)"
  by (induction indices) (simp_all add: carrier_bits_def carrier_bit_def is_bin_char_def)

lemma length_carrier_bits: "length (carrier_bits dct_blocks indices) = length indices"
  by (simp add: carrier_bits_def)

lemma embed_payload_too_large:
  assumes "length dct_blocks < length (full_binary_payload x message)"
  shows "embed_payload x message dct_blocks
           = (Some (CapacityError ((int (length dct_blocks) - 32) div 8)
                      (length (utf8_encode x message))), dct_blocks)"
  using assms by (simp add: embed_payload_def Let_def LENGTH_HEADER_BITS_def)

lemma embed_payload_fits:
  assumes "length (full_binary_payload x message) \<le> length dct_blocks"
    and "list_all is_8x8 dct_blocks"
  shows "\<exists>bs. embed_payload x message dct_blocks = (None, bs)
            \<and> length bs = length dct_blocks \<and> list_all is_8x8 bs"
proof -
  have "list_all (\<lambda>i. i < length dct_blocks \<and> i < length (full_binary_payload x message))
          [0..<length (full_binary_payload x message)]"
    using assms(1) by (simp add: list_all_iff)
  then have "\<exists>bs. embed_loop (full_binary_payload x message)
                     [0..<length (full_binary_payload x message)] dct_blocks = (None, bs)
            \<and> length bs = length dct_blocks \<and> list_all is_8x8 bs"
    by (rule embed_loop_ok [OF full_binary_payload_chars assms(2)])
  then show ?thesis
    using assms(1) by (simp add: embed_payload_def Let_def)
qed

lemma int_base2_header:
  "int_base2 (carrier_bits dct_blocks [0..<32]) = Inr (header_length dct_blocks)"
proof -
  have "carrier_bits dct_blocks [0..<32] \<noteq> []"
    using length_carrier_bits [of dct_blocks "[0..<32]"] by auto
  then show ?thesis
    unfolding header_length_def
    by (rule int_base2_msb_value) (rule carrier_bits_chars)
qed

lemma extract_payload_8x8:
  assumes "list_all is_8x8 dct_blocks"
  shows "extract_payload x dct_blocks =
     (if length dct_blocks < 32 then Inr None
      else if int (header_length dct_blocks) > int (length dct_blocks) - 32 then Inr None
      else Inr (Some (utf8_decode_ignore x (spec_decode_bytes
              (carrier_bits dct_blocks
                 (map (\<lambda>i. LENGTH_HEADER_BITS + i) [0..<header_length dct_blocks]))))))"
proof (cases "length dct_blocks < 32")
  case True
  then show ?thesis by (simp add: extract_payload_def LENGTH_HEADER_BITS_def)
next
  case False
  then have "list_all (\<lambda>i. i < length dct_blocks) [0..<32]"
    by (simp add: list_all_iff)
  then have h: "read_bits dct_blocks [0..<32] [] = Inr (carrier_bits dct_blocks [0..<32])"
    using read_bits_ok [OF assms, of "[0..<32]" "[]"] by simp
  show ?thesis
  proof (cases "int (header_length dct_blocks) > int (length dct_blocks) - 32")
    case True
    then show ?thesis
      using False h by (simp add: extract_payload_def LENGTH_HEADER_BITS_def int_base2_header)
  next
    case fits: False
    then have "list_all (\<lambda>i. i < length dct_blocks)
                 (map (\<lambda>i. LENGTH_HEADER_BITS + i) [0..<header_length dct_blocks])"
      using False by (auto simp: list_all_iff LENGTH_HEADER_BITS_def)
    then have b: "read_bits dct_blocks
                    (map (\<lambda>i. LENGTH_HEADER_BITS + i) [0..<header_length dct_blocks]) []
          = Inr (carrier_bits dct_blocks
                    (map (\<lambda>i. LENGTH_HEADER_BITS + i) [0..<header_length dct_blocks]))"
      using read_bits_ok [OF assms, of _ "[]"] by simp
    have d: "binary_to_message x (carrier_bits dct_blocks idx)
               = Inr (Some (utf8_decode_ignore x (spec_decode_bytes (carrier_bits dct_blocks idx))))"
      for idx
      by (rule binary_to_message_bits) (rule carrier_bits_chars)
    have h': "read_bits dct_blocks [0..<LENGTH_HEADER_BITS] []
                = Inr (carrier_bits dct_blocks [0..<32])"
      using h by (simp add: LENGTH_HEADER_BITS_def)
    have n: "\<not> length dct_blocks < LENGTH_HEADER_BITS"
      using False by (simp add: LENGTH_HEADER_BITS_def)
    have f: "\<not> int (header_length dct_blocks) > int (length dct_blocks) - int LENGTH_HEADER_BITS"
      using fits by (simp add: LENGTH_HEADER_BITS_def)
    show ?thesis
      unfolding extract_payload_def
      using False fits
      by (simp only: n if_False h' sum.case int_base2_header f b d)
  qed
qed

section \<open>Properties of padding, planes and blocks\<close>

lemma pad_amount: "n + (8 - n mod 8) mod 8 = 8 * ((n + 7) div 8)" for n :: nat
proof -
  define q r where "q = n div 8" and "r = n mod 8"
  have n: "n = 8 * q + r" and r: "r < 8"
    by (simp_all add: q_def r_def)
  have d: "(n + 7) div 8 = q + (r + 7) div 8"
    unfolding n by simp
  show ?thesis
  proof (cases "r = 0")
    case True
    then show ?thesis using n d by (simp add: r_def [symmetric])
  next
    case False
    then have "(r + 7) div 8 = 1" "(8 - r) mod 8 = 8 - r"
      using r by simp_all
    then show ?thesis using n d r by (simp add: r_def [symmetric])
  qed
qed

lemma pad_amount_least: "8 dvd m \<Longrightarrow> n \<le> m \<Longrightarrow> 8 * ((n + 7) div 8) \<le> m" for n m :: nat
proof -
  assume "8 dvd m" and le: "n \<le> m"
  then obtain k where k: "m = 8 * k" by (auto elim: dvdE)
  have "(n + 7) div 8 \<le> (8 * k + 7) div 8"
    using le unfolding k by (intro div_le_mono) simp
  also have "\<dots> = k" by simp
  finally show ?thesis unfolding k by simp
qed

lemma dvd8: "8 dvd n \<Longrightarrow> (n + 7) div 8 = n div 8 \<and> 8 * (n div 8) = n" for n :: nat
  by (auto elim!: dvdE)

lemma height_pad_image: "height (pad_image img) = 8 * ((height img + 7) div 8)"
  by (simp add: pad_image_def Let_def height_def pad_amount)

lemma width_pad_image: "width (pad_image img) = 8 * ((width img + 7) div 8)"
proof (cases img)
  case Nil
  then show ?thesis by (simp add: pad_image_def Let_def height_def width_def)
next
  case (Cons r rs)
  then show ?thesis
    by (simp add: pad_image_def Let_def width_def pad_amount)
qed

lemma has_shape_pad_image:
  assumes "rect img"
  shows "has_shape (height (pad_image img)) (width (pad_image img)) (pad_image img)"
proof -
  have "list_all (\<lambda>r. length r = 8 * ((width img + 7) div 8)) (pad_image img)"
    using assms
    by (auto simp: pad_image_def Let_def rect_def list_all_iff pad_amount)
  then show ?thesis
    by (simp add: has_shape_def height_def width_pad_image)
qed

lemma has_shape_map_map: "has_shape h w a \<Longrightarrow> has_shape h w (map (map f) a)"
  by (simp add: has_shape_def list_all_iff)

lemma height_map_map: "height (map (map f) a) = height a"
  by (simp add: height_def)

lemma width_map_map: "width (map (map f) a) = width a"
  by (cases a) (simp_all add: width_def)

lemma has_shape_width: "has_shape h w a \<Longrightarrow> 0 < h \<Longrightarrow> width a = w"
  by (cases a) (simp_all add: has_shape_def width_def)

lemma has_shape_height: "has_shape h w a \<Longrightarrow> height a = h"
  by (simp add: has_shape_def height_def)

lemma length_range_step8: "length (range_step8 n) = (n + 7) div 8"
  by (simp add: range_step8_def)

lemma length_concat_map_map:
  "length (concat (map (\<lambda>i. map (g i) ys) xs)) = length xs * length ys"
  by (induction xs) simp_all

lemma length_apply_dct: "length (fst (apply_dct x p)) = block_count p"
  by (simp add: apply_dct_def Let_def block_count_def length_concat_map_map length_range_step8)

lemma range_step8_bound: "8 dvd n \<Longrightarrow> i \<in> set (range_step8 n) \<Longrightarrow> i + 8 \<le> n"
proof -
  assume d: "8 dvd n" and i: "i \<in> set (range_step8 n)"
  from i obtain k where k: "i = 8 * k" "k < (n + 7) div 8"
    by (auto simp: range_step8_def)
  from d have "(n + 7) div 8 = n div 8" "8 * (n div 8) = n"
    using dvd8 by blast+
  with k show ?thesis by linarith
qed

lemma is_8x8_block_slice:
  assumes "has_shape h w p" and "i + 8 \<le> h" and "j + 8 \<le> w"
  shows "is_8x8 (block_slice p i j)"
proof -
  have "length (take 8 (drop i p)) = 8"
    using assms(1,2) by (simp add: has_shape_def)
  moreover have "length (take 8 (drop j r)) = 8" if "r \<in> set (take 8 (drop i p))" for r
  proof -
    have "r \<in> set p" using that by (auto dest: in_set_takeD in_set_dropD)
    then have "length r = w" using assms(1) by (simp add: has_shape_def list_all_iff)
    then show ?thesis using assms(3) by simp
  qed
  ultimately show ?thesis
    by (simp add: is_8x8_def has_shape_def block_slice_def list_all_iff)
qed

lemma is_8x8_map_map: "is_8x8 b \<Longrightarrow> is_8x8 (map (map f) b)"
  unfolding is_8x8_def by (rule has_shape_map_map)

lemma apply_dct_8x8:
  assumes "has_shape h w p" and "8 dvd h" and "8 dvd w" and "keeps_8x8 (dct2 x)"
  shows "list_all is_8x8 (fst (apply_dct x p))"
proof (cases "h = 0")
  case True
  then show ?thesis
    using assms(1) by (simp add: apply_dct_def Let_def has_shape_def height_def range_step8_def)
next
  case False
  then have hw: "height p = h" "width p = w"
    using assms(1) by (simp_all add: has_shape_height has_shape_width)
  have "is_8x8 (dct2 x (map (map f) (block_slice p i j)))"
    if "i \<in> set (range_step8 h)" "j \<in> set (range_step8 w)" for i j f
  proof -
    have "is_8x8 (block_slice p i j)"
      using assms(1) range_step8_bound [OF assms(2) that(1)] range_step8_bound [OF assms(3) that(2)]
      by (rule is_8x8_block_slice)
    then have "is_8x8 (map (map f) (block_slice p i j))"
      by (rule is_8x8_map_map)
    then show ?thesis
      using assms(4) by (simp add: keeps_8x8_def)
  qed
  then show ?thesis
    by (auto simp: apply_dct_def Let_def hw list_all_iff)
qed

lemma block_count_pad_image:
  "block_count (pad_image img) = ((height img + 7) div 8) * ((width img + 7) div 8)"
  by (simp add: block_count_def height_pad_image width_pad_image)

lemma block_count_pad_image_div:
  "block_count (pad_image img) = (height (pad_image img) div 8) * (width (pad_image img) div 8)"
  by (simp add: block_count_def height_pad_image width_pad_image)

lemma length_luma_blocks: "length (luma_blocks x img) = block_count (pad_image img)"
  by (simp add: luma_blocks_def length_apply_dct cv_split_def cvt_color_def block_count_def
      height_map_map width_map_map)

lemma luma_blocks_8x8:
  assumes "rect img" and "keeps_8x8 (dct2 x)"
  shows "list_all is_8x8 (luma_blocks x img)"
proof -
  have "has_shape (height (pad_image img)) (width (pad_image img))
          (fst (cv_split (cvt_color (bgr2ycrcb x) (pad_image img))))"
    unfolding cv_split_def cvt_color_def fst_conv
    by (intro has_shape_map_map has_shape_pad_image assms(1))
  moreover have "8 dvd height (pad_image img)" "8 dvd width (pad_image img)"
    by (simp_all add: height_pad_image width_pad_image)
  ultimately show ?thesis
    unfolding luma_blocks_def using assms(2) by (rule apply_dct_8x8)
qed

section \<open>Properties of the inverse transform and of the merge\<close>

lemma set_block_ok:
  assumes a: "has_shape h w a" and i: "i + 8 \<le> h" and j: "j + 8 \<le> w" and b: "is_8x8 b"
  shows "\<exists>a'. set_block a i j b = Inr a' \<and> has_shape h w a'"
proof -
  have h: "height a = h" using a by (rule has_shape_height)
  have "0 < h" using i by linarith
  with a have w: "width a = w" by (rule has_shape_width)
  have m: "min 8 (height a - i) = 8" "min 8 (width a - j) = 8"
    using i j h w by simp_all
  have la: "length a = h" and ra: "\<And>y. y < h \<Longrightarrow> length (a ! y) = w"
    using a by (simp_all add: has_shape_def list_all_length)
  have rb: "\<And>y. y < 8 \<Longrightarrow> length (b ! y) = 8"
    using b by (simp add: is_8x8_def has_shape_def list_all_length)
  define a' where "a' = map (\<lambda>(y, row). if i \<le> y \<and> y < i + 8
                                then take j row @ b ! (y - i) @ drop (j + 8) row else row)
                 (enumerate 0 a)"
  have s: "set_block a i j b = Inr a'"
    using b by (simp add: set_block_def m is_8x8_def a'_def)
  have "length (a' ! y) = w" if "y < h" for y
  proof (cases "i \<le> y \<and> y < i + 8")
    case True
    then have "y - i < 8" by linarith
    then have "length (b ! (y - i)) = 8" by (rule rb)
    then show ?thesis
      using that True j la ra [OF that] by (simp add: a'_def nth_enumerate_eq)
  next
    case False
    then show ?thesis
      using that la ra [OF that] by (auto simp: a'_def nth_enumerate_eq)
  qed
  moreover have "length a' = h"
    by (simp add: a'_def la)
  ultimately have "has_shape h w a'"
    by (simp add: has_shape_def list_all_length)
  with s show ?thesis by blast
qed

lemma idct_loop_ok:
  assumes "list_all is_8x8 dct_blocks" and "keeps_8x8 (idct2 x)"
    and "has_shape h w a"
    and "list_all (\<lambda>(i, j). i + 8 \<le> h \<and> j + 8 \<le> w) ps"
    and "k + length ps \<le> length dct_blocks"
  shows "\<exists>a'. idct_loop x dct_blocks ps (a, k) = Inr (a', k + length ps) \<and> has_shape h w a'"
  using assms(3-5)
proof (induction ps arbitrary: a k)
  case Nil
  then show ?case by simp
next
  case (Cons p ps)
  obtain i j where p: "p = (i, j)" by (cases p)
  have ij: "i + 8 \<le> h" "j + 8 \<le> w"
    using Cons.prems(2) p by simp_all
  have k: "k < length dct_blocks"
    using Cons.prems(3) by simp
  then have "is_8x8 (dct_blocks ! k)"
    using assms(1) by (simp add: list_all_length)
  then have "is_8x8 (idct2 x (dct_blocks ! k))"
    using assms(2) by (simp add: keeps_8x8_def)
  then obtain a1 where a1: "set_block a i j (idct2 x (dct_blocks ! k)) = Inr a1" "has_shape h w a1"
    using set_block_ok [OF Cons.prems(1) ij] by blast
  have "list_all (\<lambda>(i, j). i + 8 \<le> h \<and> j + 8 \<le> w) ps"
    using Cons.prems(2) by simp
  moreover have "(k + 1) + length ps \<le> length dct_blocks"
    using Cons.prems(3) by simp
  ultimately obtain a' where "idct_loop x dct_blocks ps (a1, k + 1) = Inr (a', (k + 1) + length ps)"
      "has_shape h w a'"
    using Cons.IH [OF a1(2)] by blast
  then show ?case
    using k a1(1) by (simp add: p)
qed

lemma has_shape_replicate: "has_shape h w (replicate h (replicate w v))"
  by (simp add: has_shape_def list_all_length)

lemma apply_idct_ok:
  assumes "list_all is_8x8 dct_blocks" and "keeps_8x8 (idct2 x)"
    and "8 dvd h" and "8 dvd w"
    and "((h + 7) div 8) * ((w + 7) div 8) \<le> length dct_blocks"
  shows "\<exists>a. apply_idct x dct_blocks h w = Inr a \<and> has_shape h w a"
proof -
  define ps where "ps = concat (map (\<lambda>i. map (\<lambda>j. (i, j)) (range_step8 w)) (range_step8 h))"
  have b: "list_all (\<lambda>(i, j). i + 8 \<le> h \<and> j + 8 \<le> w) ps"
    using range_step8_bound [OF assms(3)] range_step8_bound [OF assms(4)]
    by (auto simp: ps_def list_all_iff)
  have l: "0 + length ps \<le> length dct_blocks"
    using assms(5) by (simp add: ps_def length_concat_map_map length_range_step8)
  obtain a' where a': "idct_loop x dct_blocks ps (replicate h (replicate w 0), 0)
                        = Inr (a', 0 + length ps)" "has_shape h w a'"
    using idct_loop_ok [OF assms(1,2) has_shape_replicate b l] by blast
  have "apply_idct x dct_blocks h w = Inr (map (map (\<lambda>v. v + 128)) a')"
    using a'(1) by (simp add: apply_idct_def Let_def ps_def [symmetric])
  moreover have "has_shape h w (map (map (\<lambda>v. v + 128)) a')"
    using a'(2) by (rule has_shape_map_map)
  ultimately show ?thesis by blast
qed

lemma map_length_has_shape: "has_shape h w a \<Longrightarrow> map length a = replicate h w"
  by (auto simp: has_shape_def list_all_length intro!: nth_equalityI)

lemma cv_merge_ok:
  assumes "has_shape h w a" and "has_shape h w b" and "has_shape h w c"
  shows "\<exists>m. cv_merge a b c = Inr m \<and> has_shape h w m"
proof -
  have "cv_merge a b c = Inr (map (\<lambda>(ra, rb, rc). zip ra (zip rb rc)) (zip a (zip b c)))"
    using assms by (simp add: cv_merge_def map_length_has_shape)
  moreover have "has_shape h w (map (\<lambda>(ra, rb, rc). zip ra (zip rb rc)) (zip a (zip b c)))"
    using assms by (auto simp: has_shape_def list_all_length)
  ultimately show ?thesis by blast
qed

lemma has_shape_crop:
  assumes "has_shape h w a" and "h' \<le> h" and "w' \<le> w"
  shows "has_shape h' w' (crop h' w' a)"
  using assms by (auto simp: has_shape_def crop_def list_all_length)

section \<open>Properties of the two public methods\<close>

lemma reveal_message_Some:
  "reveal_message x (Some img) = extract_payload x (luma_blocks x img)"
  by (simp add: reveal_message_def luma_blocks_def Let_def case_prod_beta)

lemma hide_message_Some:
  "hide_message x (Some img) m =
     (case embed_payload x m (luma_blocks x img) of
        (Some e, _) \<Rightarrow> Inl e
      | (None, bs) \<Rightarrow>
          (case apply_idct x bs (height (pad_image img)) (width (pad_image img)) of
             Inl e \<Rightarrow> Inl e
           | Inr a \<Rightarrow>
               (case cv_merge (map (map clip_uint8) a)
                       (fst (snd (cv_split (cvt_color (bgr2ycrcb x) (pad_image img)))))
                       (snd (snd (cv_split (cvt_color (bgr2ycrcb x) (pad_image img))))) of
                  Inl e \<Rightarrow> Inl e
                | Inr ycc \<Rightarrow>
                    Inr (crop (height img) (width img) (cvt_color (ycrcb2bgr x) ycc)))))"
  by (simp add: hide_message_def luma_blocks_def apply_dct_def cv_split_def cvt_color_def
      Let_def height_map_map width_map_map split: prod.split option.split sum.split)

lemma embed_loop_error:
  "embed_loop p indices bs = (Some e, bs') \<Longrightarrow> e = ValueError \<or> e = IndexError"
proof (induction indices arbitrary: bs)
  case Nil
  then show ?case by simp
next
  case (Cons i indices)
  then show ?case
    by (auto simp: int_char_def write_bit_def get_21_def set_21_def Let_def
        split: if_splits sum.splits)
qed

lemma idct_loop_error:
  "idct_loop x bs ps st = Inl e \<Longrightarrow> e = ValueError \<or> e = IndexError"
proof (induction ps arbitrary: st)
  case Nil
  then show ?case by simp
next
  case (Cons p ps)
  obtain i j a k where "p = (i, j)" "st = (a, k)"
    by (cases p, cases st) auto
  with Cons show ?case
    by (auto simp: set_block_def split: if_splits sum.splits)
qed

lemma apply_idct_error:
  "apply_idct x bs h w = Inl e \<Longrightarrow> e = ValueError \<or> e = IndexError"
  by (auto simp: apply_idct_def Let_def split: sum.splits dest: idct_loop_error)

lemma cv_merge_error: "cv_merge a b c = Inl e \<Longrightarrow> e = CvError"
  by (simp add: cv_merge_def split: if_splits)

lemma hide_message_capacity_error:
  assumes "hide_message x (Some img) m = Inl (CapacityError c k)"
  shows "block_count (pad_image img) < length (full_binary_payload x m)
       \<and> c = (int (block_count (pad_image img)) - 32) div 8
       \<and> k = length (utf8_encode x m)"
proof (cases "length (luma_blocks x img) < length (full_binary_payload x m)")
  case True
  then show ?thesis
    using assms
    by (simp add: hide_message_Some embed_payload_too_large length_luma_blocks)
next
  case False
  then have e: "embed_payload x m (luma_blocks x img)
              = embed_loop (full_binary_payload x m) [0..<length (full_binary_payload x m)]
                  (luma_blocks x img)"
    by (simp add: embed_payload_def Let_def)
  show ?thesis
    using assms
    by (auto simp: hide_message_Some e
        split: prod.splits option.splits sum.splits
        dest: embed_loop_error apply_idct_error cv_merge_error)
qed

lemma has_shape_cv_split:
  assumes "has_shape h w a"
  shows "has_shape h w (fst (cv_split a))" "has_shape h w (fst (snd (cv_split a)))"
    "has_shape h w (snd (snd (cv_split a)))"
  using assms by (simp_all add: cv_split_def has_shape_map_map)

lemma le_pad: "n \<le> 8 * ((n + 7) div 8)" for n :: nat
  using pad_amount [of n] by linarith

lemma hide_message_ok:
  assumes "rect img" and "keeps_8x8 (dct2 x)" and "keeps_8x8 (idct2 x)"
    and "length (full_binary_payload x m) \<le> block_count (pad_image img)"
  shows "\<exists>out. hide_message x (Some img) m = Inr out
             \<and> has_shape (height img) (width img) out"
proof -
  define hp wp where "hp = height (pad_image img)" and "wp = width (pad_image img)"
  define ycc where "ycc = cvt_color (bgr2ycrcb x) (pad_image img)"
  have sp: "has_shape hp wp ycc"
    unfolding ycc_def cvt_color_def hp_def wp_def
    by (intro has_shape_map_map has_shape_pad_image assms(1))
  have d: "8 dvd hp" "8 dvd wp"
    by (simp_all add: hp_def wp_def height_pad_image width_pad_image)
  have bc: "length (luma_blocks x img) = ((hp + 7) div 8) * ((wp + 7) div 8)"
    by (simp add: length_luma_blocks block_count_def hp_def wp_def)
  obtain bs where bs: "embed_payload x m (luma_blocks x img) = (None, bs)"
      "length bs = length (luma_blocks x img)" "list_all is_8x8 bs"
    using embed_payload_fits [of x m "luma_blocks x img"] assms(4)
      luma_blocks_8x8 [OF assms(1,2)]
    by (auto simp: length_luma_blocks)
  obtain a where a: "apply_idct x bs hp wp = Inr a" "has_shape hp wp a"
    using apply_idct_ok [OF bs(3) assms(3) d] bs(2) bc by auto
  have "has_shape hp wp (map (map clip_uint8) a)"
    using a(2) by (rule has_shape_map_map)
  then obtain mg where mg: "cv_merge (map (map clip_uint8) a) (fst (snd (cv_split ycc)))
        (snd (snd (cv_split ycc))) = Inr mg" "has_shape hp wp mg"
    using cv_merge_ok has_shape_cv_split(2,3) [OF sp] by blast
  have "has_shape hp wp (cvt_color (ycrcb2bgr x) mg)"
    unfolding cvt_color_def using mg(2) by (rule has_shape_map_map)
  moreover have "height img \<le> hp" "width img \<le> wp"
    by (simp_all add: hp_def wp_def height_pad_image width_pad_image le_pad)
  ultimately have "has_shape (height img) (width img)
      (crop (height img) (width img) (cvt_color (ycrcb2bgr x) mg))"
    by (rule has_shape_crop)
  moreover have "hide_message x (Some img) m
      = Inr (crop (height img) (width img) (cvt_color (ycrcb2bgr x) mg))"
    using bs(1) a(1) mg(1)
    by (simp add: hide_message_Some hp_def [symmetric] wp_def [symmetric] ycc_def [symmetric])
  ultimately show ?thesis by blast
qed

section \<open>Images of one colour\<close>

lemma rect_replicate: "rect (replicate h (replicate w p))"
  by (cases h) (simp_all add: rect_def width_def list_all_iff)

lemma height_replicate: "height (replicate h r) = h"
  by (simp add: height_def)

lemma width_replicate: "0 < h \<Longrightarrow> width (replicate h r) = length r"
  by (cases h) (simp_all add: width_def)

lemma keeps_8x8_demo_ext: "keeps_8x8 (dct2 demo_ext)" "keeps_8x8 (idct2 demo_ext)"
  by (simp_all add: keeps_8x8_def demo_ext_def)

lemma pad_zero: "8 dvd n \<Longrightarrow> (8 - n mod 8) mod 8 = 0" for n :: nat
  by (auto elim!: dvdE)

lemma pad_image_id:
  assumes "8 dvd height img" and "8 dvd width img"
  shows "pad_image img = img"
  using assms by (simp add: pad_image_def Let_def pad_zero)

lemma block_slice_replicate:
  assumes "i + 8 \<le> h" and "j + 8 \<le> w"
  shows "block_slice (replicate h (replicate w s)) i j = replicate 8 (replicate 8 s)"
proof -
  have "min 8 (h - i) = 8" "min 8 (w - j) = 8"
    using assms by simp_all
  then show ?thesis
    by (simp add: block_slice_def)
qed

lemma concat_replicate_replicate: "concat (replicate n (replicate m c)) = replicate (n * m) c"
  by (induction n) (simp_all add: replicate_add)

lemma map_const_on: "(\<And>y. y \<in> set ys \<Longrightarrow> f y = c) \<Longrightarrow> map f ys = replicate (length ys) c"
  by (induction ys) simp_all

lemma apply_dct_replicate:
  assumes "8 dvd h" and "8 dvd w" and "0 < h"
  shows "fst (apply_dct x (replicate h (replicate w s)))
           = replicate ((h div 8) * (w div 8))
               (dct2 x (replicate 8 (replicate 8 (of_nat (unat s) - 128))))"
proof -
  define c where "c = dct2 x (replicate 8 (replicate 8 (of_nat (unat s) - 128 :: rat)))"
  have b: "dct2 x (map (map (\<lambda>s. of_nat (unat s) - 128))
              (block_slice (replicate h (replicate w s)) i j)) = c"
    if "i \<in> set (range_step8 h)" "j \<in> set (range_step8 w)" for i j
    using range_step8_bound [OF assms(1) that(1)] range_step8_bound [OF assms(2) that(2)]
    by (simp add: block_slice_replicate c_def)
  have row: "map (\<lambda>j. dct2 x (map (map (\<lambda>s. of_nat (unat s) - 128))
              (block_slice (replicate h (replicate w s)) i j))) (range_step8 w)
            = replicate (w div 8) c"
    if "i \<in> set (range_step8 h)" for i
    using map_const_on [of "range_step8 w" _ c, OF b [OF that]] dvd8 [OF assms(2)]
    by (simp add: length_range_step8)
  have "map (\<lambda>i. map (\<lambda>j. dct2 x (map (map (\<lambda>s. of_nat (unat s) - 128))
              (block_slice (replicate h (replicate w s)) i j))) (range_step8 w)) (range_step8 h)
          = replicate (h div 8) (replicate (w div 8) c)"
    using map_const_on [of "range_step8 h" _ "replicate (w div 8) c", OF row] dvd8 [OF assms(1)]
    by (simp add: length_range_step8)
  then show ?thesis
    using assms(3)
    by (simp add: apply_dct_def Let_def height_replicate width_replicate
        concat_replicate_replicate c_def)
qed

lemma luma_blocks_replicate:
  assumes "8 dvd h" and "8 dvd w" and "0 < h"
  shows "luma_blocks x (replicate h (replicate w px))
           = replicate ((h div 8) * (w div 8))
               (dct2 x (replicate 8 (replicate 8
                  (of_nat (unat (fst (bgr2ycrcb x px))) - 128))))"
proof -
  have "pad_image (replicate h (replicate w px)) = replicate h (replicate w px)"
    using assms by (intro pad_image_id) (simp_all add: height_replicate width_replicate)
  moreover have "fst (cv_split (cvt_color (bgr2ycrcb x) (replicate h (replicate w px))))
      = replicate h (replicate w (fst (bgr2ycrcb x px)))"
    by (simp add: cv_split_def cvt_color_def case_prod_beta)
  ultimately show ?thesis
    by (simp add: luma_blocks_def apply_dct_replicate [OF assms])
qed

lemma msb_value_zeros: "list_all (\<lambda>c. c = CHR ''0'') s \<Longrightarrow> msb_value s = 0"
  by (induction s) (simp_all add: bin_char_val_def)

lemma np_round_0: "np_round 0 = 0"
  by (simp add: np_round_def)

lemma carrier_bit_zero_block: "carrier_bit (replicate 8 (replicate 8 0)) = CHR ''0''"
proof -
  have s: "is_8x8 (replicate 8 (replicate 8 (0 :: rat)))"
    by (simp add: is_8x8_def has_shape_replicate)
  have "quantize (replicate 8 (replicate 8 0)) ! 2 ! 1 = (0 :: 32 word)"
    using quantize_nth [OF s, of 2 1] by (simp add: np_round_0)
  then show ?thesis
    by (simp only: carrier_bit_def) simp
qed

lemma header_length_zero_blocks:
  assumes "32 \<le> n"
  shows "header_length (replicate n (replicate 8 (replicate 8 0))) = 0"
proof -
  have "list_all (\<lambda>c. c = CHR ''0'')
          (carrier_bits (replicate n (replicate 8 (replicate 8 0))) [0..<32])"
    using assms by (simp add: carrier_bits_def list_all_iff carrier_bit_zero_block)
  then show ?thesis
    unfolding header_length_def by (rule msb_value_zeros)
qed

text \<open>A grey image of 8 rows and 256 columns, which has exactly 32 blocks.\<close>

lemma luma_blocks_grey:
  "luma_blocks demo_ext (replicate 8 (replicate 256 (128, 128, 128)))
     = replicate 32 (replicate 8 (replicate 8 0))"
proof -
  have "luma_blocks demo_ext (replicate 8 (replicate 256 (128, 128, 128)))
      = replicate ((8 div 8) * (256 div 8))
               (dct2 demo_ext (replicate 8 (replicate 8
                  (of_nat (unat (fst (bgr2ycrcb demo_ext (128, 128, 128)))) - 128))))"
    by (rule luma_blocks_replicate) simp_all
  then show ?thesis
    by (simp add: demo_ext_def)
qed

lemma block_count_pad_replicate:
  "0 < h \<Longrightarrow> block_count (pad_image (replicate h (replicate w p)))
     = ((h + 7) div 8) * ((w + 7) div 8)"
  by (simp add: block_count_pad_image height_replicate width_replicate)

section \<open>The claims about the two public methods\<close>

text \<open>
  Claim C10. For every loaded image with at least 32 blocks, the header string that
  \<open>reveal_message\<close> builds has 32 characters, all of them 0 or 1, and \<open>int(., 2)\<close>
  returns a number on it: the branch that catches \<open>ValueError\<close> is never taken.
\<close>

theorem header_parse_never_fails:
  assumes "rect img" and "keeps_8x8 (dct2 x)" and "32 \<le> block_count (pad_image img)"
  shows "reveal_message x (Some img) = extract_payload x (luma_blocks x img)
       \<and> (\<exists>s n. read_bits (luma_blocks x img) [0..<LENGTH_HEADER_BITS] [] = Inr s
              \<and> length s = 32 \<and> list_all is_bin_char s \<and> int_base2 s = Inr n)"
proof -
  have "list_all (\<lambda>i. i < length (luma_blocks x img)) [0..<32]"
    using assms(3) by (simp add: list_all_iff length_luma_blocks)
  then have "read_bits (luma_blocks x img) [0..<LENGTH_HEADER_BITS] []
               = Inr (carrier_bits (luma_blocks x img) [0..<32])"
    using read_bits_ok [OF luma_blocks_8x8 [OF assms(1,2)], of "[0..<32]" "[]"]
    by (simp add: LENGTH_HEADER_BITS_def)
  moreover have "length (carrier_bits (luma_blocks x img) [0..<32]) = 32"
    by (simp add: length_carrier_bits)
  moreover note carrier_bits_chars [of "luma_blocks x img" "[0..<32]"]
    int_base2_header [of "luma_blocks x img"] reveal_message_Some [of x img]
  ultimately show ?thesis by blast
qed

theorem header_parse_never_fails_witness:
  "rect (grey 8 256)
   \<and> keeps_8x8 (dct2 demo_ext)
   \<and> 32 \<le> block_count (pad_image (grey 8 256))
   \<and> (\<exists>s n. read_bits (luma_blocks demo_ext (grey 8 256))
                [0..<LENGTH_HEADER_BITS] [] = Inr s
              \<and> length s = 32 \<and> list_all is_bin_char s \<and> int_base2 s = Inr n)"
proof -
  have r: "rect (grey 8 256)"
    unfolding grey_def by (rule rect_replicate)
  have b: "32 \<le> block_count (pad_image (grey 8 256))"
    by (simp add: grey_def block_count_pad_replicate)
  show ?thesis
    using r b keeps_8x8_demo_ext(1) header_parse_never_fails [OF r keeps_8x8_demo_ext(1) b]
    by blast
qed

text \<open>
  Claim C7. For every loaded image, \<open>reveal_message\<close> raises nothing, and it returns
  \<open>None\<close> exactly when the padded image has fewer than 32 blocks or the length carried
  by the first 32 blocks is larger than the number of blocks that follow them; a carried
  length of zero gives the empty string, not \<open>None\<close>.
\<close>

theorem reveal_message_none_iff:
  assumes "rect img" and "keeps_8x8 (dct2 x)" and "utf8_decode_ignore x [] = []"
  shows "(\<exists>r. reveal_message x (Some img) = Inr r)
       \<and> (reveal_message x (Some img) = Inr None \<longleftrightarrow>
            block_count (pad_image img) < 32
            \<or> int (header_length (luma_blocks x img)) > int (block_count (pad_image img)) - 32)
       \<and> (32 \<le> block_count (pad_image img) \<and> header_length (luma_blocks x img) = 0 \<longrightarrow>
            reveal_message x (Some img) = Inr (Some []))"
proof -
  note e = extract_payload_8x8 [OF luma_blocks_8x8 [OF assms(1,2)], of x]
  have z: "spec_decode_bytes (carrier_bits bs []) = []" for bs
    by (simp add: spec_decode_bytes_def carrier_bits_def)
  have 1: "\<exists>r. reveal_message x (Some img) = Inr r"
    by (simp add: reveal_message_Some e)
  have 2: "reveal_message x (Some img) = Inr None \<longleftrightarrow>
            block_count (pad_image img) < 32
            \<or> int (header_length (luma_blocks x img)) > int (block_count (pad_image img)) - 32"
    by (simp add: reveal_message_Some e length_luma_blocks)
  have 3: "reveal_message x (Some img) = Inr (Some [])"
    if "32 \<le> block_count (pad_image img) \<and> header_length (luma_blocks x img) = 0"
    using that assms(3) by (simp add: reveal_message_Some e length_luma_blocks z)
  show ?thesis
    using 1 2 3 by blast
qed

theorem reveal_message_none_iff_witness:
  "rect (grey 8 256)
   \<and> rect (grey 8 8)
   \<and> keeps_8x8 (dct2 demo_ext) \<and> utf8_decode_ignore demo_ext [] = []
   \<and> 32 \<le> block_count (pad_image (grey 8 256))
   \<and> header_length (luma_blocks demo_ext (grey 8 256)) = 0
   \<and> reveal_message demo_ext (Some (grey 8 256)) = Inr (Some [])
   \<and> block_count (pad_image (grey 8 8)) < 32
   \<and> reveal_message demo_ext (Some (grey 8 8)) = Inr None"
proof -
  have r: "rect (grey 8 256)"
    and r': "rect (grey 8 8)"
    unfolding grey_def by (rule rect_replicate)+
  have d: "utf8_decode_ignore demo_ext [] = []"
    by (simp add: demo_ext_def)
  have b: "32 \<le> block_count (pad_image (grey 8 256))"
    by (simp add: grey_def block_count_pad_replicate)
  have b': "block_count (pad_image (grey 8 8)) < 32"
    by (simp add: grey_def block_count_pad_replicate)
  have h: "header_length (luma_blocks demo_ext (grey 8 256)) = 0"
    unfolding grey_def luma_blocks_grey by (rule header_length_zero_blocks) simp
  note w = reveal_message_none_iff [OF r keeps_8x8_demo_ext(1) d]
  note w' = reveal_message_none_iff [OF r' keeps_8x8_demo_ext(1) d]
  have 1: "reveal_message demo_ext (Some (grey 8 256)) = Inr (Some [])"
    using w b h by blast
  have 2: "reveal_message demo_ext (Some (grey 8 8)) = Inr None"
    using w' b' by blast
  show ?thesis
    using r r' keeps_8x8_demo_ext(1) d b h 1 b' 2 by blast
qed

lemma hide_message_too_large:
  assumes "block_count (pad_image img) < length (full_binary_payload x m)"
  shows "hide_message x (Some img) m
           = Inl (CapacityError ((int (block_count (pad_image img)) - 32) div 8)
                    (length (utf8_encode x m)))"
  using assms
  by (simp add: hide_message_Some embed_payload_too_large length_luma_blocks)

lemma length_payload_demo_ext:
  "8 * length m < 2 ^ 32 \<Longrightarrow> length (full_binary_payload demo_ext m) = 32 + 8 * length m"
  using length_full_binary_payload_fit [of demo_ext m] by (simp add: demo_ext_def)

text \<open>
  Claim C3. When \<open>hide_message\<close> raises the capacity error, the error reports the
  capacity \<open>(block_count - 32) // 8\<close>, computed on unbounded integers with the division
  rounding down, so that it is at most zero (never a large positive number) for an image
  with fewer than 32 blocks, and it reports the number of bytes of the UTF-8 encoding of
  the message.
\<close>

theorem capacity_error_report:
  assumes "hide_message x (Some img) message = Inl (CapacityError c k)"
  shows "c = (int (block_count (pad_image img)) - 32) div 8
       \<and> k = length (utf8_encode x message)
       \<and> (block_count (pad_image img) < 32 \<longrightarrow> c \<le> 0)"
proof -
  note e = hide_message_capacity_error [OF assms]
  have "(int n - 32) div 8 \<le> 0" if "n < 32" for n :: nat
    using that by simp
  then show ?thesis
    using e by blast
qed

theorem capacity_error_report_witness:
  "hide_message demo_ext (Some (black 8 8)) [65] = Inl (CapacityError (- 4) 1)
   \<and> (int (block_count (pad_image (black 8 8))) - 32) div 8 = - 4
   \<and> length (utf8_encode demo_ext [65]) = 1
   \<and> block_count (pad_image (black 8 8)) < 32"
proof -
  have b: "block_count (pad_image (black 8 8)) = 1"
    by (simp add: black_def block_count_pad_replicate)
  have p: "length (full_binary_payload demo_ext [65]) = 40"
    using length_payload_demo_ext [of "[65]"] by simp
  have c: "(int (block_count (pad_image (black 8 8))) - 32) div 8 = - 4"
    unfolding b by simp
  have k: "length (utf8_encode demo_ext [65]) = 1"
    by (simp add: demo_ext_def)
  have "hide_message demo_ext (Some (black 8 8)) [65]
          = Inl (CapacityError ((int (block_count (pad_image (black 8 8))) - 32) div 8)
                    (length (utf8_encode demo_ext [65])))"
    by (rule hide_message_too_large) (simp add: b p)
  then have h: "hide_message demo_ext (Some (black 8 8)) [65] = Inl (CapacityError (- 4) 1)"
    unfolding c k .
  note w = capacity_error_report [OF h]
  have 1: "(int (block_count (pad_image (black 8 8))) - 32) div 8 = - 4"
    by (rule w [THEN conjunct1, symmetric])
  have 2: "length (utf8_encode demo_ext [65]) = 1"
    by (rule w [THEN conjunct2, THEN conjunct1, symmetric])
  have 3: "block_count (pad_image (black 8 8)) < 32"
    unfolding b by simp
  show ?thesis
    using h 1 2 3 by blast
qed

text \<open>
  Claim C2. For every loaded image and every message, \<open>hide_message\<close> raises the
  capacity error exactly when the payload has more bits than the padded luma plane has
  8 by 8 blocks, so that a payload of exactly as many bits as there are blocks is
  embedded and one more bit raises; the payload has 32 header bits and 8 bits for every
  byte of the message whenever that bit length is below \<open>2^32\<close>, and with these words
  the equivalence holds for every image of fewer than \<open>2^32\<close> blocks; when the error is
  raised the list of blocks is still the one that the transform returned.
\<close>

theorem hide_message_capacity:
  assumes "rect img" and "keeps_8x8 (dct2 x)" and "keeps_8x8 (idct2 x)"
  shows "((\<exists>c k. hide_message x (Some img) message = Inl (CapacityError c k)) \<longleftrightarrow>
            block_count (pad_image img) < length (full_binary_payload x message))
       \<and> (length (full_binary_payload x message) \<le> block_count (pad_image img) \<longrightarrow>
            (\<exists>out. hide_message x (Some img) message = Inr out))
       \<and> (8 * length (utf8_encode x message) < 2 ^ 32 \<longrightarrow>
            length (full_binary_payload x message) = 32 + 8 * length (utf8_encode x message))
       \<and> (8 * length (utf8_encode x message) < 2 ^ 32 \<or> block_count (pad_image img) < 2 ^ 32 \<longrightarrow>
            ((\<exists>c k. hide_message x (Some img) message = Inl (CapacityError c k)) \<longleftrightarrow>
               block_count (pad_image img) < 32 + 8 * length (utf8_encode x message)))
       \<and> (block_count (pad_image img) < length (full_binary_payload x message) \<longrightarrow>
            embed_payload x message (luma_blocks x img)
              = (Some (CapacityError ((int (block_count (pad_image img)) - 32) div 8)
                         (length (utf8_encode x message))), luma_blocks x img))
       \<and> block_count (pad_image img)
            = (height (pad_image img) div 8) * (width (pad_image img) div 8)"
proof -
  let ?n = "8 * length (utf8_encode x message)"
  let ?bc = "block_count (pad_image img)"
  let ?raises = "\<exists>c k. hide_message x (Some img) message = Inl (CapacityError c k)"
  have 1: "?raises \<longleftrightarrow> ?bc < length (full_binary_payload x message)"
    using hide_message_capacity_error [of x img message] hide_message_too_large [of img x message]
    by blast
  have 2: "\<exists>out. hide_message x (Some img) message = Inr out"
    if "length (full_binary_payload x message) \<le> ?bc"
    using hide_message_ok [OF assms that] by blast
  have 3: "length (full_binary_payload x message) = 32 + ?n" if "?n < 2 ^ 32"
    using that by (rule length_full_binary_payload_fit)
  have ge: "32 + ?n \<le> length (full_binary_payload x message)"
    by (simp add: length_full_binary_payload)
  have 4: "?raises \<longleftrightarrow> ?bc < 32 + ?n" if "?n < 2 ^ 32 \<or> ?bc < 2 ^ 32"
  proof (cases "?n < 2 ^ 32")
    case True
    then show ?thesis using 1 3 by simp
  next
    case False
    with that have "?bc < 32 + ?n" by linarith
    moreover from this ge have "?bc < length (full_binary_payload x message)" by linarith
    ultimately show ?thesis using 1 by blast
  qed
  have 5: "embed_payload x message (luma_blocks x img)
              = (Some (CapacityError ((int ?bc - 32) div 8)
                         (length (utf8_encode x message))), luma_blocks x img)"
    if "?bc < length (full_binary_payload x message)"
    using that embed_payload_too_large [of "luma_blocks x img" x message]
    by (simp add: length_luma_blocks)
  note 6 = block_count_pad_image_div [of img]
  show ?thesis
    using 1 2 3 4 5 6 by blast
qed

theorem hide_message_capacity_witness:
  "rect (grey 8 256) \<and> rect (grey 8 248)
   \<and> keeps_8x8 (dct2 demo_ext) \<and> keeps_8x8 (idct2 demo_ext)
   \<and> 8 * length (utf8_encode demo_ext []) < (2::nat) ^ 32
   \<and> block_count (pad_image (grey 8 256)) = 32
   \<and> length (full_binary_payload demo_ext []) = 32
   \<and> (\<exists>out. hide_message demo_ext (Some (grey 8 256)) [] = Inr out)
   \<and> block_count (pad_image (grey 8 248)) = 31
   \<and> (\<exists>c k. hide_message demo_ext (Some (grey 8 248)) [] = Inl (CapacityError c k))
   \<and> embed_payload demo_ext [] (luma_blocks demo_ext (grey 8 248))
        = (Some (CapacityError ((int (block_count (pad_image (grey 8 248))) - 32) div 8)
                   (length (utf8_encode demo_ext []))), luma_blocks demo_ext (grey 8 248))"
proof -
  have r: "rect (grey 8 256)" and r': "rect (grey 8 248)"
    unfolding grey_def by (rule rect_replicate)+
  have n: "8 * length (utf8_encode demo_ext []) < (2::nat) ^ 32"
    by (simp add: demo_ext_def)
  have b: "block_count (pad_image (grey 8 256)) = 32"
    and b': "block_count (pad_image (grey 8 248)) = 31"
    by (simp_all add: grey_def block_count_pad_replicate)
  have p: "length (full_binary_payload demo_ext []) = 32"
    using length_payload_demo_ext [of "[]"] by simp
  note w = hide_message_capacity [OF r keeps_8x8_demo_ext, of "[]"]
  note w' = hide_message_capacity [OF r' keeps_8x8_demo_ext, of "[]"]
  have le: "length (full_binary_payload demo_ext []) \<le> block_count (pad_image (grey 8 256))"
    by (simp add: b p)
  have lt: "block_count (pad_image (grey 8 248)) < length (full_binary_payload demo_ext [])"
    by (simp add: b' p)
  have 1: "\<exists>out. hide_message demo_ext (Some (grey 8 256)) [] = Inr out"
    using w le by blast
  have 2: "\<exists>c k. hide_message demo_ext (Some (grey 8 248)) [] = Inl (CapacityError c k)"
    using w' lt by blast
  have 3: "embed_payload demo_ext [] (luma_blocks demo_ext (grey 8 248))
        = (Some (CapacityError ((int (block_count (pad_image (grey 8 248))) - 32) div 8)
                   (length (utf8_encode demo_ext []))), luma_blocks demo_ext (grey 8 248))"
    using w' lt by blast
  show ?thesis
    using r r' keeps_8x8_demo_ext n b p 1 b' 2 3 by blast
qed

lemma pad_image_nth:
  assumes "rect img" and "i < height (pad_image img)" and "j < width (pad_image img)"
  shows "pad_image img ! i ! j
           = (if i < height img \<and> j < width img then img ! i ! j else (0, 0, 0))"
proof -
  define h_pad w_pad where "h_pad = (8 - height img mod 8) mod 8"
    and "w_pad = (8 - width img mod 8) mod 8"
  have p: "pad_image img = map (\<lambda>row. row @ replicate w_pad (0, 0, 0)) img
                           @ replicate h_pad (replicate (width img + w_pad) (0, 0, 0))"
    by (simp add: pad_image_def Let_def h_pad_def w_pad_def)
  have hi: "i < height img + h_pad"
    using assms(2) by (simp add: height_pad_image pad_amount h_pad_def)
  have wj: "j < width img + w_pad"
    using assms(3) by (simp add: width_pad_image pad_amount w_pad_def)
  show ?thesis
  proof (cases "i < height img")
    case True
    then have l: "length (img ! i) = width img"
      using assms(1) by (simp add: rect_def list_all_length height_def)
    have "pad_image img ! i = img ! i @ replicate w_pad (0, 0, 0)"
      using True by (simp add: p nth_append height_def)
    then show ?thesis
      using True l wj by (simp add: nth_append)
  next
    case False
    then have "pad_image img ! i = replicate (width img + w_pad) (0, 0, 0)"
      using hi by (simp add: p nth_append height_def)
    then show ?thesis
      using False wj by simp
  qed
qed

lemma hide_message_shape:
  assumes "rect img" and "hide_message x (Some img) m = Inr out"
  shows "has_shape (height img) (width img) out"
proof -
  define hp wp where "hp = height (pad_image img)" and "wp = width (pad_image img)"
  define ycc where "ycc = cvt_color (bgr2ycrcb x) (pad_image img)"
  have sp: "has_shape hp wp ycc"
    unfolding ycc_def cvt_color_def hp_def wp_def
    by (intro has_shape_map_map has_shape_pad_image assms(1))
  obtain a mg where mg: "cv_merge a (fst (snd (cv_split ycc))) (snd (snd (cv_split ycc))) = Inr mg"
    and out: "out = crop (height img) (width img) (cvt_color (ycrcb2bgr x) mg)"
    using assms(2)
    by (auto simp: hide_message_Some ycc_def split: prod.splits option.splits sum.splits)
  have l: "map length a = map length (fst (snd (cv_split ycc)))"
      "map length (fst (snd (cv_split ycc))) = map length (snd (snd (cv_split ycc)))"
    using mg by (simp_all add: cv_merge_def split: if_splits)
  have "map length a = replicate hp wp"
    using l(1) map_length_has_shape [OF has_shape_cv_split(2) [OF sp]] by simp
  then have "has_shape hp wp a"
    by (auto simp: has_shape_def list_all_length dest: arg_cong [where f = length]
        intro: map_eq_imp_length_eq)
       (metis length_map length_replicate nth_map nth_replicate)
  then obtain mg' where "cv_merge a (fst (snd (cv_split ycc))) (snd (snd (cv_split ycc))) = Inr mg'"
      "has_shape hp wp mg'"
    using cv_merge_ok has_shape_cv_split(2,3) [OF sp] by blast
  with mg have "has_shape hp wp mg" by simp
  then have "has_shape hp wp (cvt_color (ycrcb2bgr x) mg)"
    unfolding cvt_color_def by (rule has_shape_map_map)
  moreover have "height img \<le> hp" "width img \<le> wp"
    by (simp_all add: hp_def wp_def height_pad_image width_pad_image le_pad)
  ultimately show ?thesis
    unfolding out by (rule has_shape_crop)
qed


text \<open>
  Claim C8. The padded image has as height and width the smallest multiples of 8 that
  are at least the height and width of the image; it holds the samples of the image at
  their places and zeros at every other place, which are below and to the right; an
  image whose dimensions are multiples of 8 is returned as it is; and the image that
  \<open>hide_message\<close> writes has the dimensions of the image it was given.
\<close>

theorem pad_image_and_crop:
  assumes "rect img"
  shows "8 dvd height (pad_image img) \<and> height img \<le> height (pad_image img)
       \<and> (\<forall>n. 8 dvd n \<and> height img \<le> n \<longrightarrow> height (pad_image img) \<le> n)
       \<and> 8 dvd width (pad_image img) \<and> width img \<le> width (pad_image img)
       \<and> (\<forall>n. 8 dvd n \<and> width img \<le> n \<longrightarrow> width (pad_image img) \<le> n)
       \<and> has_shape (height (pad_image img)) (width (pad_image img)) (pad_image img)
       \<and> (\<forall>i j. i < height (pad_image img) \<and> j < width (pad_image img) \<longrightarrow>
             pad_image img ! i ! j
               = (if i < height img \<and> j < width img then img ! i ! j else (0, 0, 0)))
       \<and> (8 dvd height img \<and> 8 dvd width img \<longrightarrow> pad_image img = img)
       \<and> (\<forall>out. hide_message x (Some img) message = Inr out \<longrightarrow>
             has_shape (height img) (width img) out)"
proof -
  have 1: "8 dvd height (pad_image img)" "8 dvd width (pad_image img)"
    by (simp_all add: height_pad_image width_pad_image)
  have 2: "height img \<le> height (pad_image img)" "width img \<le> width (pad_image img)"
    by (simp_all add: height_pad_image width_pad_image le_pad)
  have 3: "height (pad_image img) \<le> n" if "8 dvd n \<and> height img \<le> n" for n
    using that by (simp add: height_pad_image pad_amount_least)
  have 4: "width (pad_image img) \<le> n" if "8 dvd n \<and> width img \<le> n" for n
    using that by (simp add: width_pad_image pad_amount_least)
  note 5 = has_shape_pad_image [OF assms]
  have 6: "pad_image img ! i ! j
               = (if i < height img \<and> j < width img then img ! i ! j else (0, 0, 0))"
    if "i < height (pad_image img) \<and> j < width (pad_image img)" for i j
    using that pad_image_nth [OF assms, of i j] by blast
  have 7: "pad_image img = img" if "8 dvd height img \<and> 8 dvd width img"
    using that pad_image_id by blast
  have 8: "has_shape (height img) (width img) out"
    if "hide_message x (Some img) message = Inr out" for out
    using assms that by (rule hide_message_shape)
  show ?thesis
    using 1 2 3 4 5 6 7 8 by blast
qed

theorem pad_image_and_crop_witness:
  "rect (black 10 250) \<and> rect (black 8 16)
   \<and> height (pad_image (black 10 250)) = 16 \<and> width (pad_image (black 10 250)) = 256
   \<and> 8 dvd height (black 8 16) \<and> 8 dvd width (black 8 16)
   \<and> pad_image (black 8 16) = black 8 16
   \<and> (\<exists>out. hide_message demo_ext (Some (black 10 250)) [65] = Inr out
           \<and> has_shape 10 250 out)"
proof -
  have r: "rect (black 10 250)" and r': "rect (black 8 16)"
    unfolding black_def by (rule rect_replicate)+
  have d: "height (black 10 250) = 10" "width (black 10 250) = 250"
      "height (black 8 16) = 8" "width (black 8 16) = 16"
    by (simp_all add: black_def height_replicate width_replicate)
  have hp: "height (pad_image (black 10 250)) = 16"
    by (simp add: height_pad_image d)
  have wp: "width (pad_image (black 10 250)) = 256"
    by (simp add: width_pad_image d)
  have m: "8 dvd height (black 8 16) \<and> 8 dvd width (black 8 16)"
    by (simp add: d)
  have i: "pad_image (black 8 16) = black 8 16"
    using pad_image_and_crop [OF r'] m by blast
  have "length (full_binary_payload demo_ext [65]) = 40"
    using length_payload_demo_ext [of "[65]"] by simp
  moreover have "block_count (pad_image (black 10 250)) = 64"
    by (simp add: block_count_def hp wp)
  ultimately have "length (full_binary_payload demo_ext [65])
                     \<le> block_count (pad_image (black 10 250))"
    by simp
  then obtain out where out: "hide_message demo_ext (Some (black 10 250)) [65] = Inr out"
    using hide_message_ok [OF r keeps_8x8_demo_ext] by blast
  then have "has_shape (height (black 10 250)) (width (black 10 250)) out"
    using pad_image_and_crop [OF r, of demo_ext "[65]"] by blast
  then have s: "has_shape 10 250 out"
    by (simp only: d)
  show ?thesis
    using r r' hp wp m i out s by blast
qed

section \<open>Entries of the blocks of a plane\<close>

lemma nth_concat_map_map:
  "i < length xs \<Longrightarrow> j < length ys \<Longrightarrow>
   concat (map (\<lambda>a. map (g a) ys) xs) ! (i * length ys + j) = g (xs ! i) (ys ! j)"
proof (induction xs arbitrary: i)
  case Nil
  then show ?case by simp
next
  case (Cons a xs)
  show ?case
  proof (cases i)
    case 0
    then show ?thesis using Cons.prems(2) by (simp add: nth_append)
  next
    case (Suc i')
    then have "i' < length xs" using Cons.prems(1) by simp
    then have "concat (map (\<lambda>a. map (g a) ys) xs) ! (i' * length ys + j) = g (xs ! i') (ys ! j)"
      using Cons.prems(2) by (rule Cons.IH)
    moreover have "Suc i' * length ys + j = length ys + (i' * length ys + j)"
      by simp
    ultimately show ?thesis
      using Suc by (simp add: nth_append)
  qed
qed

lemma nth_range_step8: "k < (n + 7) div 8 \<Longrightarrow> range_step8 n ! k = 8 * k"
  by (simp add: range_step8_def)

lemma nth_apply_dct:
  assumes "bi < (height p + 7) div 8" and "bj < (width p + 7) div 8"
  shows "fst (apply_dct x p) ! (bi * ((width p + 7) div 8) + bj)
           = dct2 x (map (map (\<lambda>s. of_nat (unat s) - 128)) (block_slice p (8 * bi) (8 * bj)))"
proof -
  have "concat (map (\<lambda>i. map (\<lambda>j. dct2 x (map (map (\<lambda>s. of_nat (unat s) - 128))
              (block_slice p i j))) (range_step8 (width p))) (range_step8 (height p)))
          ! (bi * length (range_step8 (width p)) + bj)
        = dct2 x (map (map (\<lambda>s. of_nat (unat s) - 128))
            (block_slice p (range_step8 (height p) ! bi) (range_step8 (width p) ! bj)))"
    using assms by (intro nth_concat_map_map) (simp_all add: length_range_step8)
  then show ?thesis
    using assms by (simp add: apply_dct_def Let_def length_range_step8 nth_range_step8)
qed

lemma nth_block_slice:
  assumes "has_shape h w p" and "i + 8 \<le> h" and "j + 8 \<le> w" and "r < 8" and "c < 8"
  shows "block_slice p i j ! r ! c = p ! (i + r) ! (j + c)"
proof -
  have l: "length p = h" and rw: "length (p ! (i + r)) = w"
    using assms by (simp_all add: has_shape_def list_all_length)
  have "block_slice p i j ! r = take 8 (drop j (p ! (i + r)))"
    using assms(2,4) l by (simp add: block_slice_def)
  then show ?thesis
    using assms(3,5) rw by simp
qed

lemma has_shape_rect:
  assumes "has_shape h w a" and "0 < h"
  shows "rect a" and "height a = h" and "width a = w"
proof -
  show h: "height a = h" using assms(1) by (rule has_shape_height)
  show w: "width a = w" using assms by (rule has_shape_width)
  show "rect a" using assms(1) by (simp add: rect_def has_shape_def w)
qed

lemma luma_block_entry:
  assumes "rect img" and "dct2 x = (\<lambda>b. b)"
    and "bi < (height img + 7) div 8" and "bj < (width img + 7) div 8"
    and "r < 8" and "c < 8"
  shows "luma_blocks x img ! (bi * ((width img + 7) div 8) + bj) ! r ! c
           = of_nat (unat (fst (bgr2ycrcb x (pad_image img ! (8 * bi + r) ! (8 * bj + c))))) - 128"
proof -
  define P where "P = pad_image img"
  define y where "y = fst (cv_split (cvt_color (bgr2ycrcb x) P))"
  define hp wp where "hp = 8 * ((height img + 7) div 8)" and "wp = 8 * ((width img + 7) div 8)"
  have sP: "has_shape hp wp P"
    using has_shape_pad_image [OF assms(1)]
    by (simp add: P_def hp_def wp_def height_pad_image width_pad_image)
  have sy: "has_shape hp wp y"
    unfolding y_def cvt_color_def using sP
    by (intro has_shape_cv_split(1) has_shape_map_map)
  have b: "8 * bi + 8 \<le> hp" "8 * bj + 8 \<le> wp"
    using assms(3,4) by (simp_all add: hp_def wp_def)
  then have pos: "0 < hp" by linarith
  have hy: "height y = hp" and wy: "width y = wp"
    using has_shape_rect(2,3) [OF sy pos] by simp_all
  have d: "(hp + 7) div 8 = (height img + 7) div 8" "(wp + 7) div 8 = (width img + 7) div 8"
    by (simp_all add: hp_def wp_def)
  have blk: "luma_blocks x img ! (bi * ((width img + 7) div 8) + bj)
          = map (map (\<lambda>s. of_nat (unat s) - 128)) (block_slice y (8 * bi) (8 * bj))"
    using nth_apply_dct [of bi y bj x] assms(2,3,4)
    by (simp add: luma_blocks_def y_def P_def hy [unfolded y_def P_def] wy [unfolded y_def P_def] d)
  have s8: "is_8x8 (block_slice y (8 * bi) (8 * bj))"
    using sy b by (rule is_8x8_block_slice)
  then have l: "length (block_slice y (8 * bi) (8 * bj)) = 8"
      "length (block_slice y (8 * bi) (8 * bj) ! r) = 8"
    using assms(5) by (simp_all add: is_8x8_def has_shape_def list_all_length)
  have e: "block_slice y (8 * bi) (8 * bj) ! r ! c = y ! (8 * bi + r) ! (8 * bj + c)"
    using sy b assms(5,6) by (rule nth_block_slice)
  have lp: "length P = hp" "length (P ! (8 * bi + r)) = wp"
    using sP b assms(5) by (simp_all add: has_shape_def list_all_length)
  have yv: "y ! (8 * bi + r) ! (8 * bj + c) = fst (bgr2ycrcb x (P ! (8 * bi + r) ! (8 * bj + c)))"
    using lp b assms(5,6)
    by (simp add: y_def cv_split_def cvt_color_def case_prod_beta)
  show ?thesis
    unfolding blk using l assms(5,6) by (simp add: e yv P_def)
qed

lemma np_round_padding: "np_round (- 128 / 13) = - 10"
  by code_simp

lemma np_round_padding': "np_round (- (128 / 13)) = - 10"
  using np_round_padding by simp

lemma quantization_table_21: "quantization_table ! 2 ! 1 = 13"
  by (simp add: quantization_table_def)

lemma bit0_word_of_int: "bit (word_of_int k :: 32 word) 0 = odd k"
proof -
  have "bit (word_of_int k :: 32 word) 0 = bit k 0"
    by (simp only: bit_word_of_int_iff) simp
  then show ?thesis
    by (simp only: bit_0)
qed

lemma carrier_bit_entry:
  assumes "is_8x8 blk"
  shows "carrier_bit blk
           = (if odd (np_round (blk ! 2 ! 1 / 13)) then CHR ''1'' else CHR ''0'')"
proof -
  have "quantize blk ! 2 ! 1 = word_of_int (np_round (blk ! 2 ! 1 / of_int 13))"
    using quantize_nth [OF assms, of 2 1] by (simp only: quantization_table_21)
  then have "bit (quantize blk ! 2 ! 1) 0 = odd (np_round (blk ! 2 ! 1 / 13))"
    by (simp only: bit0_word_of_int of_int_numeral)
  then show ?thesis
    by (simp only: carrier_bit_def)
qed

lemma keeps_8x8_id: "dct2 x = (\<lambda>b. b) \<Longrightarrow> keeps_8x8 (dct2 x)"
  by (simp add: keeps_8x8_def)

lemma carrier_bit_in_padding:
  assumes "rect img" and "dct2 x = (\<lambda>b. b)" and "fst (bgr2ycrcb x (0, 0, 0)) = 0"
    and "bi < (height img + 7) div 8" and "bj < (width img + 7) div 8"
    and "height img \<le> 8 * bi + 2 \<or> width img \<le> 8 * bj + 1"
  shows "carrier_bit (luma_blocks x img ! (bi * ((width img + 7) div 8) + bj)) = CHR ''0''"
proof -
  let ?k = "bi * ((width img + 7) div 8) + bj"
  have "bi * ((width img + 7) div 8) + bj < Suc bi * ((width img + 7) div 8)"
    using assms(5) by simp
  also have "\<dots> \<le> ((height img + 7) div 8) * ((width img + 7) div 8)"
    using assms(4) by (intro mult_le_mono1) simp
  finally have k: "?k < length (luma_blocks x img)"
    by (simp add: length_luma_blocks block_count_pad_image)
  have s: "is_8x8 (luma_blocks x img ! ?k)"
    using luma_blocks_8x8 [OF assms(1) keeps_8x8_id [OF assms(2)]] k
    by (simp add: list_all_length)
  have r: "8 * bi + 2 < height (pad_image img)" and c: "8 * bj + 1 < width (pad_image img)"
    using assms(4,5) by (simp_all add: height_pad_image width_pad_image)
  have "pad_image img ! (8 * bi + 2) ! (8 * bj + 1) = (0, 0, 0)"
    using pad_image_nth [OF assms(1) r c] assms(6) by auto
  then have "luma_blocks x img ! ?k ! 2 ! 1 = - 128"
    using luma_block_entry [OF assms(1,2,4,5), of 2 1] assms(3) by simp
  then show ?thesis
    by (simp add: carrier_bit_entry [OF s] np_round_padding')
qed

lemma spec_decode_bytes_zeros:
  "spec_decode_bytes (replicate n (CHR ''0'')) = replicate (n div 8) 0"
proof -
  have "msb_value (take 8 (drop (8 * k) (replicate n (CHR ''0'')))) = 0" for k
    by (rule msb_value_zeros) (simp add: list_all_iff)
  then show ?thesis
    by (simp add: spec_decode_bytes_groups map_replicate_const)
qed

lemma carrier_bits_zeros:
  "(\<And>i. i \<in> set indices \<Longrightarrow> carrier_bit (bs ! i) = CHR ''0'')
   \<Longrightarrow> carrier_bits bs indices = replicate (length indices) (CHR ''0'')"
  unfolding carrier_bits_def by (rule map_const_on)

text \<open>
  What \<open>reveal_message\<close> returns on any image of 10 rows and 250 columns under the
  stand-in library functions: the blocks from index 32 on lie in the second row of blocks,
  whose entry \<open>[2, 1]\<close> is in row 10 of the padded image, that is in the zeros that
  \<open>_pad_image\<close> has just added. So every body bit is read as 0.
\<close>

lemma reveal_message_10x250:
  assumes "has_shape 10 250 out"
  shows "reveal_message demo_ext (Some out) = Inr None
       \<or> (\<exists>n. reveal_message demo_ext (Some out) = Inr (Some (replicate n 0)))"
proof -
  have r: "rect out" and h: "height out = 10" and w: "width out = 250"
    using has_shape_rect [OF assms] by simp_all
  have d: "dct2 demo_ext = (\<lambda>b. b)" and y: "fst (bgr2ycrcb demo_ext (0, 0, 0)) = 0"
    by (simp_all add: demo_ext_def)
  have l: "length (luma_blocks demo_ext out) = 64"
    by (simp add: length_luma_blocks block_count_pad_image h w)
  have z': "carrier_bit (luma_blocks demo_ext out ! (32 + j)) = CHR ''0''" if "j < 32" for j
    using carrier_bit_in_padding [OF r d y, of 1 j] that by (simp add: h w)
  have z: "carrier_bit (luma_blocks demo_ext out ! i) = CHR ''0''" if "32 \<le> i" "i < 64" for i
    using z' [of "i - 32"] that by simp
  note e = extract_payload_8x8 [OF luma_blocks_8x8 [OF r keeps_8x8_demo_ext(1)], of demo_ext]
  show ?thesis
  proof (cases "header_length (luma_blocks demo_ext out) \<le> 32")
    case True
    have "carrier_bits (luma_blocks demo_ext out)
            (map (\<lambda>i. LENGTH_HEADER_BITS + i) [0..<header_length (luma_blocks demo_ext out)])
          = replicate (length (map (\<lambda>i. LENGTH_HEADER_BITS + i)
                          [0..<header_length (luma_blocks demo_ext out)])) (CHR ''0'')"
      using True by (intro carrier_bits_zeros) (auto simp: LENGTH_HEADER_BITS_def z)
    then have "reveal_message demo_ext (Some out)
              = Inr (Some (utf8_decode_ignore demo_ext
                     (replicate (header_length (luma_blocks demo_ext out) div 8) 0)))"
      using True by (simp add: reveal_message_Some e l spec_decode_bytes_zeros)
    then show ?thesis
      by (simp add: demo_ext_def)
  next
    case False
    then show ?thesis
      by (simp add: reveal_message_Some e l)
  qed
qed

section \<open>The entries that the embedding iteration writes\<close>

lemma embed_loop_untouched:
  "embed_loop p indices bs = (None, bs') \<Longrightarrow> k \<notin> set indices \<Longrightarrow> bs' ! k = bs ! k"
proof (induction indices arbitrary: bs)
  case Nil
  then show ?case by simp
next
  case (Cons i indices)
  then show ?case
    by (auto split: if_splits sum.splits)
qed

lemma embed_loop_nth:
  assumes "list_all is_bin_char payload"
    and "embed_loop payload indices bs = (None, bs')"
    and "distinct indices" and "k \<in> set indices"
  shows "\<exists>q. write_bit (bin_char_val (payload ! k)) (quantize (bs ! k)) = Inr q
            \<and> bs' ! k = dequantize q"
  using assms(2-4)
proof (induction indices arbitrary: bs)
  case Nil
  then show ?case by simp
next
  case (Cons i indices)
  from Cons.prems(1) have i: "i < length bs" "i < length payload"
    by (auto split: if_splits)
  have c: "int_char (payload ! i) = Inr (bin_char_val (payload ! i))"
    using assms(1) i(2) by (intro int_char_bin) (simp add: list_all_length)
  from Cons.prems(1) i c obtain q
    where q: "write_bit (bin_char_val (payload ! i)) (quantize (bs ! i)) = Inr q"
      and e: "embed_loop payload indices (bs[i := dequantize q]) = (None, bs')"
    by (auto split: sum.splits)
  show ?case
  proof (cases "k = i")
    case True
    have "bs' ! i = bs[i := dequantize q] ! i"
      using embed_loop_untouched [OF e] Cons.prems(2) by simp
    then show ?thesis
      using True q i(1) by simp
  next
    case False
    then have "k \<in> set indices"
      using Cons.prems(3) by simp
    then show ?thesis
      using Cons.IH [OF e] Cons.prems(2) False by simp
  qed
qed

lemma write_bit_entry:
  assumes "is_8x8 q" and "write_bit b q = Inr q'"
  shows "q' ! 2 ! 1 = (if b = 0 then q ! 2 ! 1 AND NOT 1 else q ! 2 ! 1 OR 1)"
proof -
  have "q[2 := (q ! 2)[1 := v]] ! 2 ! 1 = v" for v
    using update_21_nth [OF assms(1), of 2 1 v] by simp
  then show ?thesis
    using assms by (auto simp: write_bit_def get_21_8x8 set_21_8x8 split: if_splits)
qed

lemma np_round_1: "np_round 1 = 1"
  by (simp add: np_round_def)

text \<open>
  A block whose entry \<open>[2, 1]\<close> is 0 has the entry 13 after the digit 1 was written into
  it, and 0 after the digit 0: the step of the quantization table at \<open>[2, 1]\<close> is 13.
\<close>

lemma embedded_entry:
  assumes "is_8x8 blk" and "blk ! 2 ! 1 = 0"
    and "write_bit (bin_char_val c) (quantize blk) = Inr q"
  shows "dequantize q ! 2 ! 1 = (if c = CHR ''1'' then 13 else 0)"
proof -
  have q0: "quantize blk ! 2 ! 1
              = word_of_int (np_round (blk ! 2 ! 1 / of_int (quantization_table ! 2 ! 1)))"
    by (rule quantize_nth [OF assms(1)]) simp_all
  have z: "quantize blk ! 2 ! 1 = 0"
    unfolding q0 assms(2) by (simp add: np_round_0)
  have s: "is_8x8 q"
    using write_bit_8x8 [OF is_8x8_quantize [OF assms(1)], of "bin_char_val c"] assms(3) by auto
  have "q ! 2 ! 1 = (if bin_char_val c = 0 then quantize blk ! 2 ! 1 AND NOT 1
                     else quantize blk ! 2 ! 1 OR 1)"
    by (rule write_bit_entry [OF is_8x8_quantize [OF assms(1)] assms(3)])
  then have v: "q ! 2 ! 1 = (if c = CHR ''1'' then 1 else 0)"
    unfolding z by (simp add: bin_char_val_def)
  have d: "dequantize q ! 2 ! 1 = of_int (sint (q ! 2 ! 1) * quantization_table ! 2 ! 1)"
    by (rule dequantize_nth [OF s]) simp_all
  show ?thesis
    unfolding d v quantization_table_21 by simp
qed

section \<open>The entries that the inverse transform writes\<close>

lemma set_block_nth:
  assumes a: "has_shape h w a" and i: "i + 8 \<le> h" and j: "j + 8 \<le> w" and b: "is_8x8 b"
    and s: "set_block a i j b = Inr a'" and y: "y < h" and z: "z < w"
  shows "a' ! y ! z = (if i \<le> y \<and> y < i + 8 \<and> j \<le> z \<and> z < j + 8
                       then b ! (y - i) ! (z - j) else a ! y ! z)"
proof -
  have h: "height a = h" using a by (rule has_shape_height)
  have "0 < h" using i by linarith
  with a have w: "width a = w" by (rule has_shape_width)
  have m: "min 8 (height a - i) = 8" "min 8 (width a - j) = 8"
    using i j h w by simp_all
  have la: "length a = h" and ra: "length (a ! y) = w"
    using a y by (simp_all add: has_shape_def list_all_length)
  have rb: "\<And>y. y < 8 \<Longrightarrow> length (b ! y) = 8"
    using b by (simp add: is_8x8_def has_shape_def list_all_length)
  have a': "a' = map (\<lambda>(y, row). if i \<le> y \<and> y < i + 8
                                then take j row @ b ! (y - i) @ drop (j + 8) row else row)
                 (enumerate 0 a)"
    using b s by (simp add: set_block_def m is_8x8_def)
  show ?thesis
  proof (cases "i \<le> y \<and> y < i + 8")
    case True
    then have "y - i < 8" by linarith
    then have l: "length (b ! (y - i)) = 8" by (rule rb)
    have r: "a' ! y = take j (a ! y) @ b ! (y - i) @ drop (j + 8) (a ! y)"
      using True y la by (simp add: a' nth_enumerate_eq)
    have t: "length (take j (a ! y)) = j"
      using ra j by simp
    consider "z < j" | "j \<le> z" "z < j + 8" | "j + 8 \<le> z"
      by linarith
    then show ?thesis
    proof cases
      case 1
      then show ?thesis
        using True t by (simp add: r nth_append)
    next
      case 2
      then have "z - j < 8" by linarith
      then show ?thesis
        using True 2 t l by (simp add: r nth_append)
    next
      case 3
      then have "j + 8 + (z - j - 8) = z" by linarith
      moreover have "\<not> z < j" "\<not> z - j < 8"
        using 3 by linarith+
      ultimately show ?thesis
        using True 3 t l ra z by (simp add: r nth_append)
    qed
  next
    case False
    then show ?thesis
      using y la by (auto simp: a' nth_enumerate_eq)
  qed
qed

lemma idct_loop_untouched:
  assumes "list_all is_8x8 dct_blocks" and "keeps_8x8 (idct2 x)"
    and "has_shape h w a"
    and "list_all (\<lambda>(i, j). i + 8 \<le> h \<and> j + 8 \<le> w) ps"
    and "idct_loop x dct_blocks ps (a, k) = Inr (a', n)"
    and "y < h" and "z < w"
    and "list_all (\<lambda>(i, j). \<not> (i \<le> y \<and> y < i + 8 \<and> j \<le> z \<and> z < j + 8)) ps"
  shows "a' ! y ! z = a ! y ! z"
  using assms(3-5,8)
proof (induction ps arbitrary: a k)
  case Nil
  then show ?case by simp
next
  case (Cons p ps)
  obtain i j where p: "p = (i, j)" by (cases p)
  have ij: "i + 8 \<le> h" "j + 8 \<le> w"
    using Cons.prems(2) p by simp_all
  have k: "k < length dct_blocks"
    using Cons.prems(3) by (auto simp: p split: if_splits)
  then have "is_8x8 (dct_blocks ! k)"
    using assms(1) by (simp add: list_all_length)
  then have b: "is_8x8 (idct2 x (dct_blocks ! k))"
    using assms(2) by (simp add: keeps_8x8_def)
  then obtain a1 where a1: "set_block a i j (idct2 x (dct_blocks ! k)) = Inr a1" "has_shape h w a1"
    using set_block_ok [OF Cons.prems(1) ij] by blast
  have e: "idct_loop x dct_blocks ps (a1, k + 1) = Inr (a', n)"
    using Cons.prems(3) k a1(1) by (simp add: p)
  have "\<not> (i \<le> y \<and> y < i + 8 \<and> j \<le> z \<and> z < j + 8)"
    using Cons.prems(4) by (simp add: p)
  then have "a1 ! y ! z = a ! y ! z"
    using set_block_nth [OF Cons.prems(1) ij b a1(1) assms(6,7)] by presburger
  moreover have "a' ! y ! z = a1 ! y ! z"
    using Cons.IH [OF a1(2) _ e] Cons.prems(2,4) by simp
  ultimately show ?case by simp
qed

lemma idct_loop_entry:
  assumes "list_all is_8x8 dct_blocks" and "keeps_8x8 (idct2 x)"
    and "has_shape h w a"
    and "list_all (\<lambda>(i, j). i + 8 \<le> h \<and> j + 8 \<le> w) (pre @ (i, j) # post)"
    and "idct_loop x dct_blocks (pre @ (i, j) # post) (a, k) = Inr (a', n)"
    and "r < 8" and "c < 8"
    and "list_all (\<lambda>(i', j'). \<not> (i' \<le> i + r \<and> i + r < i' + 8 \<and> j' \<le> j + c \<and> j + c < j' + 8)) post"
  shows "a' ! (i + r) ! (j + c) = idct2 x (dct_blocks ! (k + length pre)) ! r ! c"
  using assms(3-5)
proof (induction pre arbitrary: a k)
  case Nil
  have ij: "i + 8 \<le> h" "j + 8 \<le> w"
    using Nil.prems(2) by simp_all
  have k: "k < length dct_blocks"
    using Nil.prems(3) by (auto split: if_splits)
  then have "is_8x8 (dct_blocks ! k)"
    using assms(1) by (simp add: list_all_length)
  then have b: "is_8x8 (idct2 x (dct_blocks ! k))"
    using assms(2) by (simp add: keeps_8x8_def)
  then obtain a1 where a1: "set_block a i j (idct2 x (dct_blocks ! k)) = Inr a1" "has_shape h w a1"
    using set_block_ok [OF Nil.prems(1) ij] by blast
  have e: "idct_loop x dct_blocks post (a1, k + 1) = Inr (a', n)"
    using Nil.prems(3) k a1(1) by simp
  have y: "i + r < h" and z: "j + c < w"
    using ij assms(6,7) by linarith+
  have p: "list_all (\<lambda>(i, j). i + 8 \<le> h \<and> j + 8 \<le> w) post"
    using Nil.prems(2) by simp
  have "a1 ! (i + r) ! (j + c) = idct2 x (dct_blocks ! k) ! r ! c"
    using set_block_nth [OF Nil.prems(1) ij b a1(1) y z] assms(6,7) by simp
  moreover have "a' ! (i + r) ! (j + c) = a1 ! (i + r) ! (j + c)"
    by (rule idct_loop_untouched [OF assms(1,2) a1(2) p e y z assms(8)])
  ultimately show ?case by simp
next
  case (Cons p pre)
  obtain i' j' where p: "p = (i', j')" by (cases p)
  have ij: "i' + 8 \<le> h" "j' + 8 \<le> w"
    using Cons.prems(2) p by simp_all
  have k: "k < length dct_blocks"
    using Cons.prems(3) by (auto simp: p split: if_splits)
  then have "is_8x8 (dct_blocks ! k)"
    using assms(1) by (simp add: list_all_length)
  then have b: "is_8x8 (idct2 x (dct_blocks ! k))"
    using assms(2) by (simp add: keeps_8x8_def)
  then obtain a1 where a1: "set_block a i' j' (idct2 x (dct_blocks ! k)) = Inr a1" "has_shape h w a1"
    using set_block_ok [OF Cons.prems(1) ij] by blast
  have e: "idct_loop x dct_blocks (pre @ (i, j) # post) (a1, k + 1) = Inr (a', n)"
    using Cons.prems(3) k a1(1) by (simp add: p)
  have "a' ! (i + r) ! (j + c) = idct2 x (dct_blocks ! (k + 1 + length pre)) ! r ! c"
    using Cons.IH [OF a1(2) _ e] Cons.prems(2) by simp
  then show ?case by simp
qed

lemma distinct_range_step8: "distinct (range_step8 n)"
  by (simp add: range_step8_def distinct_map inj_on_def)

lemma range_step8_dvd: "i \<in> set (range_step8 n) \<Longrightarrow> 8 dvd i"
  by (auto simp: range_step8_def)

lemma distinct_positions:
  "distinct (concat (map (\<lambda>i. map (\<lambda>j. (i, j)) (range_step8 w)) (range_step8 h)))"
  using distinct_product [OF distinct_range_step8 [of h] distinct_range_step8 [of w]]
  by (simp add: product_concat_map)

lemma aligned_block:
  fixes i' bi r :: nat
  assumes "8 dvd i'" and "i' \<le> 8 * bi + r" and "8 * bi + r < i' + 8" and "r < 8"
  shows "i' = 8 * bi"
proof -
  from assms(1) obtain q where "i' = 8 * q" by (auto elim: dvdE)
  with assms(2-4) have "q = bi" by linarith
  with \<open>i' = 8 * q\<close> show ?thesis by simp
qed

lemma idct_loop_shape:
  assumes "list_all is_8x8 dct_blocks" and "keeps_8x8 (idct2 x)"
    and "has_shape h w a"
    and "list_all (\<lambda>(i, j). i + 8 \<le> h \<and> j + 8 \<le> w) ps"
    and "idct_loop x dct_blocks ps (a, k) = Inr (a', n)"
  shows "has_shape h w a'"
  using assms(3-5)
proof (induction ps arbitrary: a k)
  case Nil
  then show ?case by simp
next
  case (Cons p ps)
  obtain i j where p: "p = (i, j)" by (cases p)
  have ij: "i + 8 \<le> h" "j + 8 \<le> w"
    using Cons.prems(2) p by simp_all
  have k: "k < length dct_blocks"
    using Cons.prems(3) by (auto simp: p split: if_splits)
  then have "is_8x8 (dct_blocks ! k)"
    using assms(1) by (simp add: list_all_length)
  then have b: "is_8x8 (idct2 x (dct_blocks ! k))"
    using assms(2) by (simp add: keeps_8x8_def)
  then obtain a1 where a1: "set_block a i j (idct2 x (dct_blocks ! k)) = Inr a1" "has_shape h w a1"
    using set_block_ok [OF Cons.prems(1) ij] by blast
  have e: "idct_loop x dct_blocks ps (a1, k + 1) = Inr (a', n)"
    using Cons.prems(3) k a1(1) by (simp add: p)
  show ?case
    using Cons.IH [OF a1(2) _ e] Cons.prems(2) by simp
qed

lemma apply_idct_entry:
  assumes "list_all is_8x8 dct_blocks" and "keeps_8x8 (idct2 x)"
    and "8 dvd h" and "8 dvd w"
    and "apply_idct x dct_blocks h w = Inr a"
    and "bi < (h + 7) div 8" and "bj < (w + 7) div 8" and "r < 8" and "c < 8"
  shows "a ! (8 * bi + r) ! (8 * bj + c)
           = idct2 x (dct_blocks ! (bi * ((w + 7) div 8) + bj)) ! r ! c + 128"
proof -
  define ps where "ps = concat (map (\<lambda>i. map (\<lambda>j. (i, j)) (range_step8 w)) (range_step8 h))"
  define m where "m = bi * ((w + 7) div 8) + bj"
  have b: "list_all (\<lambda>(i, j). i + 8 \<le> h \<and> j + 8 \<le> w) ps"
    using range_step8_bound [OF assms(3)] range_step8_bound [OF assms(4)]
    by (auto simp: ps_def list_all_iff)
  have al: "8 dvd i' \<and> 8 dvd j'" if "(i', j') \<in> set ps" for i' j'
    using that range_step8_dvd by (auto simp: ps_def)
  have "bi * ((w + 7) div 8) + bj < Suc bi * ((w + 7) div 8)"
    using assms(7) by simp
  also have "\<dots> \<le> ((h + 7) div 8) * ((w + 7) div 8)"
    using assms(6) by (intro mult_le_mono1) simp
  finally have mlen: "m < length ps"
    by (simp add: m_def ps_def length_concat_map_map length_range_step8)
  have "ps ! (bi * length (range_step8 w) + bj) = (range_step8 h ! bi, range_step8 w ! bj)"
    unfolding ps_def using assms(6,7)
    by (intro nth_concat_map_map) (simp_all add: length_range_step8)
  then have pm: "ps ! m = (8 * bi, 8 * bj)"
    using assms(6,7) by (simp add: m_def length_range_step8 nth_range_step8)
  have sp: "ps = take m ps @ (8 * bi, 8 * bj) # drop (Suc m) ps"
    using id_take_nth_drop [OF mlen] pm by simp
  have "distinct ps"
    unfolding ps_def by (rule distinct_positions)
  then have "distinct (take m ps @ (8 * bi, 8 * bj) # drop (Suc m) ps)"
    using sp by simp
  then have nd: "(8 * bi, 8 * bj) \<notin> set (drop (Suc m) ps)"
    by simp
  have post: "list_all (\<lambda>(i', j'). \<not> (i' \<le> 8 * bi + r \<and> 8 * bi + r < i' + 8
                                   \<and> j' \<le> 8 * bj + c \<and> 8 * bj + c < j' + 8))
                (drop (Suc m) ps)"
    unfolding list_all_iff
  proof (intro ballI, clarify)
    fix i' j'
    assume s: "(i', j') \<in> set (drop (Suc m) ps)"
      and o: "i' \<le> 8 * bi + r" "8 * bi + r < i' + 8" "j' \<le> 8 * bj + c" "8 * bj + c < j' + 8"
    from s have "(i', j') \<in> set ps"
      by (rule in_set_dropD)
    then have "8 dvd i'" "8 dvd j'"
      using al by blast+
    then have "i' = 8 * bi" "j' = 8 * bj"
      using o assms(8,9) aligned_block by blast+
    with s nd show False by simp
  qed
  from assms(5) obtain a' n where e: "idct_loop x dct_blocks ps (replicate h (replicate w 0), 0) = Inr (a', n)"
    and a: "a = map (map (\<lambda>v. v + 128)) a'"
    by (auto simp: apply_idct_def Let_def ps_def [symmetric] split: sum.splits)
  have b': "list_all (\<lambda>(i, j). i + 8 \<le> h \<and> j + 8 \<le> w)
              (take m ps @ (8 * bi, 8 * bj) # drop (Suc m) ps)"
    using b sp by simp
  have e': "idct_loop x dct_blocks (take m ps @ (8 * bi, 8 * bj) # drop (Suc m) ps)
              (replicate h (replicate w 0), 0) = Inr (a', n)"
    using e sp by simp
  have v: "a' ! (8 * bi + r) ! (8 * bj + c) = idct2 x (dct_blocks ! (0 + length (take m ps))) ! r ! c"
    by (rule idct_loop_entry [OF assms(1,2) has_shape_replicate b' e' assms(8,9) post])
  have "list_all (\<lambda>(i, j). i + 8 \<le> h \<and> j + 8 \<le> w) [ps ! m]"
    using b mlen by (simp add: list_all_length)
  then have ij: "8 * bi + 8 \<le> h" "8 * bj + 8 \<le> w"
    by (simp_all add: pm)
  have sh: "has_shape h w a'"
    by (rule idct_loop_shape [OF assms(1,2) has_shape_replicate b e])
  have "a ! (8 * bi + r) ! (8 * bj + c) = a' ! (8 * bi + r) ! (8 * bj + c) + 128"
    using sh ij assms(8,9) by (simp add: a has_shape_def list_all_length)
  then show ?thesis
    using v mlen by (simp add: m_def)
qed

section \<open>The luma plane of the image that hide_message returns\<close>

lemma cv_merge_nth:
  assumes "has_shape h w a" and "has_shape h w b" and "has_shape h w c"
    and "cv_merge a b c = Inr mg" and "y < h" and "z < w"
  shows "mg ! y ! z = (a ! y ! z, b ! y ! z, c ! y ! z)"
proof -
  have l: "length a = h" "length b = h" "length c = h"
    "length (a ! y) = w" "length (b ! y) = w" "length (c ! y) = w"
    using assms(1-3,5) by (simp_all add: has_shape_def list_all_length)
  have "mg = map (\<lambda>(ra, rb, rc). zip ra (zip rb rc)) (zip a (zip b c))"
    using assms(4) by (simp add: cv_merge_def split: if_splits)
  then show ?thesis
    using l assms(5,6) by simp
qed

lemma crop_nth:
  assumes "has_shape h w a" and "y < h'" and "h' \<le> h" and "z < w'" and "w' \<le> w"
  shows "crop h' w' a ! y ! z = a ! y ! z"
  using assms by (simp add: crop_def has_shape_def)

text \<open>
  When the conversion back from the luma and chroma planes loses nothing, the luma value
  of a pixel of the image that \<open>hide_message\<close> returns is the clipped value of the
  reconstructed plane at that pixel.
\<close>

lemma hide_message_luma:
  assumes "rect img" and "keeps_8x8 (dct2 x)" and "keeps_8x8 (idct2 x)"
    and "length (full_binary_payload x m) \<le> block_count (pad_image img)"
    and "ycrcb2bgr x = (\<lambda>p. p)"
  shows "\<exists>out bs a. hide_message x (Some img) m = Inr out
           \<and> has_shape (height img) (width img) out
           \<and> embed_payload x m (luma_blocks x img) = (None, bs)
           \<and> list_all is_8x8 bs
           \<and> apply_idct x bs (height (pad_image img)) (width (pad_image img)) = Inr a
           \<and> (\<forall>y z. y < height img \<and> z < width img
                  \<longrightarrow> fst (out ! y ! z) = clip_uint8 (a ! y ! z))"
proof -
  define hp wp where "hp = height (pad_image img)" and "wp = width (pad_image img)"
  define ycc where "ycc = cvt_color (bgr2ycrcb x) (pad_image img)"
  have sp: "has_shape hp wp ycc"
    unfolding ycc_def cvt_color_def hp_def wp_def
    by (intro has_shape_map_map has_shape_pad_image assms(1))
  have d: "8 dvd hp" "8 dvd wp"
    by (simp_all add: hp_def wp_def height_pad_image width_pad_image)
  have bc: "length (luma_blocks x img) = ((hp + 7) div 8) * ((wp + 7) div 8)"
    by (simp add: length_luma_blocks block_count_def hp_def wp_def)
  obtain bs where bs: "embed_payload x m (luma_blocks x img) = (None, bs)"
      "length bs = length (luma_blocks x img)" "list_all is_8x8 bs"
    using embed_payload_fits [of x m "luma_blocks x img"] assms(4)
      luma_blocks_8x8 [OF assms(1,2)]
    by (auto simp: length_luma_blocks)
  obtain a where a: "apply_idct x bs hp wp = Inr a" "has_shape hp wp a"
    using apply_idct_ok [OF bs(3) assms(3) d] bs(2) bc by auto
  have sa: "has_shape hp wp (map (map clip_uint8) a)"
    using a(2) by (rule has_shape_map_map)
  then obtain mg where mg: "cv_merge (map (map clip_uint8) a) (fst (snd (cv_split ycc)))
        (snd (snd (cv_split ycc))) = Inr mg" "has_shape hp wp mg"
    using cv_merge_ok has_shape_cv_split(2,3) [OF sp] by blast
  define out where "out = crop (height img) (width img) mg"
  have le: "height img \<le> hp" "width img \<le> wp"
    by (simp_all add: hp_def wp_def height_pad_image width_pad_image le_pad)
  have so: "has_shape (height img) (width img) out"
    unfolding out_def using mg(2) le by (rule has_shape_crop)
  have c: "cvt_color (ycrcb2bgr x) mg = mg"
    by (simp add: cvt_color_def assms(5))
  have ho: "hide_message x (Some img) m = Inr out"
    using bs(1) a(1) mg(1)
    by (simp add: hide_message_Some hp_def [symmetric] wp_def [symmetric] ycc_def [symmetric]
        c out_def)
  have "fst (out ! y ! z) = clip_uint8 (a ! y ! z)" if "y < height img" "z < width img" for y z
  proof -
    have yz: "y < hp" "z < wp"
      using that le by linarith+
    have "out ! y ! z = mg ! y ! z"
      unfolding out_def using mg(2) that(1) le(1) that(2) le(2) by (rule crop_nth)
    also have "fst \<dots> = map (map clip_uint8) a ! y ! z"
      using cv_merge_nth [OF sa has_shape_cv_split(2,3) [OF sp] mg(1) yz] by simp
    also have "\<dots> = clip_uint8 (a ! y ! z)"
      using a(2) yz by (simp add: has_shape_def list_all_length)
    finally show ?thesis .
  qed
  then show ?thesis
    using ho so bs(1,3) a(1) unfolding hp_def wp_def by blast
qed

section \<open>A message of one byte in a grey image of 10 rows and 250 columns\<close>

lemma payload_A:
  "full_binary_payload demo_ext [65] = ''0000000000000000000000000000100001000001''"
proof -
  have "format_0b 32 8 = msb_first_bits 32 8"
    by (rule format_0b_msb_first) simp_all
  then show ?thesis
    by (simp add: full_binary_payload_unfold message_to_binary_spec demo_ext_def
        msb_first_bits_numeral msb_first_bits_Suc msb_first_bits_0)
qed

lemma msb_value_header_A: "msb_value ''00000000000000000000000000001000'' = 8"
  by (simp add: bin_char_val_def)

lemma clip_uint8_128: "clip_uint8 128 = 128"
  by (simp add: clip_uint8_def)

lemma clip_uint8_141: "clip_uint8 141 = 141"
  by (simp add: clip_uint8_def)

text \<open>
  The first 32 blocks of the cover have their entry \<open>[2, 1]\<close> at row 2 and at a column
  below 250, inside the image and away from the padding: the header bits written there
  come back unchanged.
\<close>

lemma header_bits_survive:
  assumes "hide_message demo_ext (Some (grey 10 250)) [65] = Inr out" and "k < 32"
  shows "has_shape 10 250 out"
    and "carrier_bit (luma_blocks demo_ext out ! k) = full_binary_payload demo_ext [65] ! k"
proof -
  let ?P = "full_binary_payload demo_ext [65]"
  let ?B = "luma_blocks demo_ext (grey 10 250)"
  have r: "rect (grey 10 250)"
    unfolding grey_def by (rule rect_replicate)
  have d: "height (grey 10 250) = 10" "width (grey 10 250) = 250"
    by (simp_all add: grey_def height_replicate width_replicate)
  have hp: "height (pad_image (grey 10 250)) = 16" "width (pad_image (grey 10 250)) = 256"
    by (simp_all add: height_pad_image width_pad_image d)
  have b: "block_count (pad_image (grey 10 250)) = 64"
    by (simp add: block_count_pad_image d)
  have p: "length ?P = 40"
    using length_payload_demo_ext [of "[65]"] by simp
  have pc: "list_all is_bin_char ?P"
    by (rule full_binary_payload_chars)
  have c2: "length ?P \<le> block_count (pad_image (grey 10 250))"
    by (simp add: b p)
  have x: "dct2 demo_ext = (\<lambda>b. b)" "idct2 demo_ext = (\<lambda>b. b)"
    "ycrcb2bgr demo_ext = (\<lambda>p. p)" "bgr2ycrcb demo_ext = (\<lambda>p. p)"
    by (simp_all add: demo_ext_def)
  obtain out' bs a where o: "hide_message demo_ext (Some (grey 10 250)) [65] = Inr out'"
    and so': "has_shape (height (grey 10 250)) (width (grey 10 250)) out'"
    and e: "embed_payload demo_ext [65] ?B = (None, bs)"
    and s: "list_all is_8x8 bs"
    and a: "apply_idct demo_ext bs (height (pad_image (grey 10 250)))
              (width (pad_image (grey 10 250))) = Inr a"
    and f: "\<forall>y z. y < height (grey 10 250) \<and> z < width (grey 10 250)
              \<longrightarrow> fst (out' ! y ! z) = clip_uint8 (a ! y ! z)"
    using hide_message_luma [OF r keeps_8x8_demo_ext c2 x(3)] by blast
  have oo: "out' = out"
    using o assms(1) by simp
  show so: "has_shape 10 250 out"
    using so' unfolding oo d .
  have lb: "length ?B = 64"
    by (simp add: length_luma_blocks b)
  have sb: "list_all is_8x8 ?B"
    by (rule luma_blocks_8x8 [OF r keeps_8x8_demo_ext(1)])
  have sk: "is_8x8 (?B ! k)"
    using sb lb assms(2) by (simp add: list_all_length)
  \<comment> \<open>the cover block\<close>
  have e02: "8 * 0 + 2 = (2::nat)"
    by simp
  have g: "pad_image (grey 10 250) ! (8 * 0 + 2) ! (8 * k + 1) = (128, 128, 128)"
  proof -
    have c: "2 < height (grey 10 250) \<and> 8 * k + 1 < width (grey 10 250)"
      using assms(2) by (simp add: d)
    have "pad_image (grey 10 250) ! 2 ! (8 * k + 1)
            = (if 2 < height (grey 10 250) \<and> 8 * k + 1 < width (grey 10 250)
               then grey 10 250 ! 2 ! (8 * k + 1) else (0, 0, 0))"
      using assms(2) by (intro pad_image_nth [OF r]) (simp_all add: hp)
    also have "\<dots> = grey 10 250 ! 2 ! (8 * k + 1)"
      by (rule if_P [OF c])
    also have "\<dots> = (128, 128, 128)"
      using assms(2) by (simp add: grey_def)
    finally show ?thesis
      unfolding e02 .
  qed
  have "?B ! (0 * ((width (grey 10 250) + 7) div 8) + k) ! 2 ! 1
          = of_nat (unat (fst (bgr2ycrcb demo_ext
               (pad_image (grey 10 250) ! (8 * 0 + 2) ! (8 * k + 1))))) - 128"
    using assms(2) by (intro luma_block_entry [OF r x(1)]) (simp_all add: d)
  then have "?B ! k ! 2 ! 1 = of_nat (unat (fst (128 :: byte, 128 :: byte, 128 :: byte))) - 128"
    unfolding g x(4) by (simp only: mult_0 add_0)
  then have z: "?B ! k ! 2 ! 1 = 0"
    by (simp only: fst_conv) simp
  \<comment> \<open>the block after the embedding\<close>
  have "embed_loop ?P [0..<length ?P] ?B = (None, bs)"
    using e by (simp add: embed_payload_def Let_def p lb)
  then obtain q where q: "write_bit (bin_char_val (?P ! k)) (quantize (?B ! k)) = Inr q"
    and bq: "bs ! k = dequantize q"
    using embed_loop_nth [OF pc, of "[0..<length ?P]" ?B bs k] assms(2) p by auto
  have v: "bs ! k ! 2 ! 1 = (if ?P ! k = CHR ''1'' then 13 else 0)"
    unfolding bq by (rule embedded_entry [OF sk z q])
  \<comment> \<open>the reconstructed plane and the pixel of the result\<close>
  have "a ! (8 * 0 + 2) ! (8 * k + 1)
          = idct2 demo_ext (bs ! (0 * ((256 + 7) div 8) + k)) ! 2 ! 1 + 128"
  proof (rule apply_idct_entry [OF s keeps_8x8_demo_ext(2)])
    show "apply_idct demo_ext bs 16 256 = Inr a"
      using a unfolding hp .
    show "k < (256 + 7) div 8"
      using assms(2) by simp
  qed simp_all
  then have av: "a ! 2 ! (8 * k + 1) = bs ! k ! 2 ! 1 + 128"
    unfolding x(2) e02 by (simp only: mult_0 add_0)
  have "2 < (10::nat) \<and> 8 * k + 1 < 250"
    using assms(2) by simp
  then have "fst (out ! 2 ! (8 * k + 1)) = clip_uint8 (a ! 2 ! (8 * k + 1))"
    using f unfolding oo d by blast
  also have "\<dots> = (if ?P ! k = CHR ''1'' then 141 else 128)"
    unfolding av v by (simp add: clip_uint8_128 clip_uint8_141)
  finally have ov: "fst (out ! 2 ! (8 * k + 1)) = (if ?P ! k = CHR ''1'' then 141 else 128)" .
  \<comment> \<open>the block that reveal_message computes\<close>
  have ro: "rect out" and ho: "height out = 10" and wo: "width out = 250"
    using has_shape_rect [OF so] by simp_all
  have po: "pad_image out ! (8 * 0 + 2) ! (8 * k + 1) = out ! 2 ! (8 * k + 1)"
  proof -
    have c: "2 < height out \<and> 8 * k + 1 < width out"
      using assms(2) by (simp add: ho wo)
    have "pad_image out ! 2 ! (8 * k + 1)
            = (if 2 < height out \<and> 8 * k + 1 < width out
               then out ! 2 ! (8 * k + 1) else (0, 0, 0))"
      using assms(2)
      by (intro pad_image_nth [OF ro]) (simp_all add: height_pad_image width_pad_image ho wo)
    also have "\<dots> = out ! 2 ! (8 * k + 1)"
      by (rule if_P [OF c])
    finally show ?thesis
      unfolding e02 .
  qed
  have "luma_blocks demo_ext out ! (0 * ((width out + 7) div 8) + k) ! 2 ! 1
          = of_nat (unat (fst (bgr2ycrcb demo_ext
               (pad_image out ! (8 * 0 + 2) ! (8 * k + 1))))) - 128"
    using assms(2) by (intro luma_block_entry [OF ro x(1)]) (simp_all add: ho wo)
  then have "luma_blocks demo_ext out ! k ! 2 ! 1
               = of_nat (unat (if ?P ! k = CHR ''1'' then 141 else 128 :: byte)) - 128"
    unfolding po x(4) ov by (simp only: mult_0 add_0)
  also have "\<dots> = (if ?P ! k = CHR ''1'' then 13 else 0)"
    by simp
  finally have lv: "luma_blocks demo_ext out ! k ! 2 ! 1 = (if ?P ! k = CHR ''1'' then 13 else 0)" .
  have lo: "length (luma_blocks demo_ext out) = 64"
    by (simp add: length_luma_blocks block_count_pad_image ho wo)
  have "is_8x8 (luma_blocks demo_ext out ! k)"
    using luma_blocks_8x8 [OF ro keeps_8x8_demo_ext(1)] lo assms(2)
    by (simp add: list_all_length)
  then have "carrier_bit (luma_blocks demo_ext out ! k)
               = (if odd (np_round (luma_blocks demo_ext out ! k ! 2 ! 1 / 13))
                  then CHR ''1'' else CHR ''0'')"
    by (rule carrier_bit_entry)
  also have "\<dots> = (if ?P ! k = CHR ''1'' then CHR ''1'' else CHR ''0'')"
    unfolding lv by (simp add: np_round_0 np_round_1)
  finally have cb: "carrier_bit (luma_blocks demo_ext out ! k)
               = (if ?P ! k = CHR ''1'' then CHR ''1'' else CHR ''0'')" .
  have "is_bin_char (?P ! k)"
    using pc p assms(2) by (simp add: list_all_length)
  then show "carrier_bit (luma_blocks demo_ext out ! k) = ?P ! k"
    unfolding cb by (auto simp: is_bin_char_def)
qed

section \<open>The round trip on an image whose height is not a multiple of 8\<close>

text \<open>
  Claim C1. The claim says that for every cover image with at least 32 blocks and every
  message whose full payload is at most the block count, revealing the image that
  \<open>hide_message\<close> produced returns the message. The code does not do this on a grey
  cover of 10 rows and 250 columns with the one-byte message \<open>A\<close> (byte 65), under
  library functions that lose nothing (identity transforms and colour conversions): the
  padded plane has 16 rows and 256 columns, hence 64 blocks, and both hypotheses of the
  claim hold for the payload of 40 bits; \<open>hide_message\<close> returns an image of 10 rows
  and 250 columns; the 32 header bits, written into blocks 0 to 31, come back and give
  the length 8; but the 8 bits of the body were written into blocks 32 to 39, whose entry
  \<open>[2, 1]\<close> is in row 10 of the padded plane, which the crop to the original size
  removes and which \<open>reveal_message\<close> pads again with zeros. So
  \<open>reveal_message\<close> returns the one-character message with code point 0, not
  \<open>A\<close>.
\<close>

theorem round_trip_loses_bits_in_padding:
  "rect (grey 10 250)
   \<and> LENGTH_HEADER_BITS \<le> block_count (pad_image (grey 10 250))
   \<and> length (full_binary_payload demo_ext [65]) \<le> block_count (pad_image (grey 10 250))
   \<and> utf8_decode_ignore demo_ext (utf8_encode demo_ext [65]) = [65]
   \<and> (\<exists>out. hide_message demo_ext (Some (grey 10 250)) [65] = Inr out
          \<and> has_shape 10 250 out
          \<and> reveal_message demo_ext (Some out) = Inr (Some [0]))"
proof -
  let ?P = "full_binary_payload demo_ext [65]"
  have r: "rect (grey 10 250)"
    unfolding grey_def by (rule rect_replicate)
  have d: "height (grey 10 250) = 10" "width (grey 10 250) = 250"
    by (simp_all add: grey_def height_replicate width_replicate)
  have b: "block_count (pad_image (grey 10 250)) = 64"
    by (simp add: block_count_pad_image d)
  have p: "length ?P = 40"
    using length_payload_demo_ext [of "[65]"] by simp
  have u: "utf8_decode_ignore demo_ext (utf8_encode demo_ext [65]) = [65]"
    by (simp add: demo_ext_def)
  have c1: "LENGTH_HEADER_BITS \<le> block_count (pad_image (grey 10 250))"
    by (simp add: b LENGTH_HEADER_BITS_def)
  have c2: "length ?P \<le> block_count (pad_image (grey 10 250))"
    by (simp add: b p)
  obtain out where out: "hide_message demo_ext (Some (grey 10 250)) [65] = Inr out"
    using hide_message_ok [OF r keeps_8x8_demo_ext c2] by blast
  have s: "has_shape 10 250 out"
    using header_bits_survive(1) [OF out, of 0] by simp
  have ro: "rect out" and ho: "height out = 10" and wo: "width out = 250"
    using has_shape_rect [OF s] by simp_all
  let ?R = "luma_blocks demo_ext out"
  have l: "length ?R = 64"
    by (simp add: length_luma_blocks block_count_pad_image ho wo)
  \<comment> \<open>the header\<close>
  have "carrier_bits ?R [0..<32] = map ((!) ?P) [0..<32]"
    unfolding carrier_bits_def using header_bits_survive(2) [OF out] by simp
  also have "\<dots> = take 32 ?P"
    using p by (intro nth_equalityI) simp_all
  also have "\<dots> = ''00000000000000000000000000001000''"
    by (simp add: payload_A)
  finally have "header_length ?R = msb_value ''00000000000000000000000000001000''"
    by (simp only: header_length_def)
  then have hl: "header_length ?R = 8"
    by (simp only: msb_value_header_A)
  \<comment> \<open>the body\<close>
  have x: "dct2 demo_ext = (\<lambda>b. b)" "fst (bgr2ycrcb demo_ext (0, 0, 0)) = 0"
    by (simp_all add: demo_ext_def)
  have z': "carrier_bit (?R ! (32 + j)) = CHR ''0''" if "j < 32" for j
    using carrier_bit_in_padding [OF ro x, of 1 j] that by (simp add: ho wo)
  have z: "carrier_bit (?R ! i) = CHR ''0''" if "32 \<le> i" "i < 64" for i
    using z' [of "i - 32"] that by simp
  have "carrier_bits ?R (map (\<lambda>i. LENGTH_HEADER_BITS + i) [0..<8])
          = replicate (length (map (\<lambda>i. LENGTH_HEADER_BITS + i) [0..<8])) (CHR ''0'')"
    by (intro carrier_bits_zeros) (auto simp: LENGTH_HEADER_BITS_def z)
  then have bd: "carrier_bits ?R (map (\<lambda>i. LENGTH_HEADER_BITS + i) [0..<8])
                  = replicate 8 (CHR ''0'')"
    by simp
  have "extract_payload demo_ext ?R
          = Inr (Some (utf8_decode_ignore demo_ext (spec_decode_bytes
              (carrier_bits ?R (map (\<lambda>i. LENGTH_HEADER_BITS + i) [0..<8])))))"
    using extract_payload_8x8 [OF luma_blocks_8x8 [OF ro keeps_8x8_demo_ext(1)], of demo_ext]
    by (simp add: l hl)
  then have "reveal_message demo_ext (Some out) = Inr (Some [0])"
    unfolding bd spec_decode_bytes_zeros reveal_message_Some by (simp add: demo_ext_def)
  then show ?thesis
    using r c1 c2 u out s by blast
qed

end
